theory Spec2Isabelle
  imports Main "HOL-Library.AList" "HOL-Library.Option_ord" "HOL-Library.Multiset"
begin

section \<open>Queue-time dashboard: the CSV aggregation \<open>processCSVData\<close>\<close>

text \<open>
  The repository holds two dashboard components; each defines its own
  \<open>processCSVData\<close> (the plain dashboard and the styled dashboard).
  Both are embedded here, statement by statement.

  Conventions of the embedding.
  \<^item> A JavaScript string is a \<open>string\<close>; a \<open>char\<close> stands for a UTF-16 code unit
    below 256.
  \<^item> A wait is a \<open>number\<close>: an integer-valued double or an infinity. \<open>parseInt\<close>
    rounds the integer it reads to the nearest double (ties to even). \<open>NaN\<close> and
    \<open>undefined\<close> are \<open>None\<close> of an option type.
  \<^item> A \<open>Date\<close> is its time value in milliseconds since the epoch (an integer within
    the range of a time value, so exact as a double), \<open>None\<close> for an invalid date. The
    string-to-date parser of the engine and the offset of local time from UTC are
    parameters (record \<open>host\<close>); local time is UTC plus a fixed offset (no
    daylight-saving change inside the data).
  \<^item> The string that \<open>toISOString\<close> returns is represented by the time value it
    denotes: \<open>new Date(d.toISOString()).getTime()\<close> is \<open>d.getTime()\<close>.
  \<^item> An object used as a dictionary (\<open>Record<string, T>\<close>, created as \<open>{}\<close>) is the
    association list of its own properties in creation order, read through
    \<open>Object.prototype\<close>: a name inherited from there reads as a truthy value that is
    no entry. The two dictionaries that the styled dashboard can assign under the name
    \<open>__proto__\<close> carry their prototype as well.
  \<^item> A thrown exception is \<open>Inl\<close> of the sum type \<open>error + 'a\<close>.
\<close>

subsection \<open>Strings\<close>

definition quote :: char where
  "quote = CHR 0x22"

definition is_space :: "char \<Rightarrow> bool" where
  \<comment> \<open>white space and line terminators removed by \<open>String.prototype.trim\<close>\<close>
  "is_space c \<longleftrightarrow> c \<in> set [CHR 0x09, CHR 0x0A, CHR 0x0B, CHR 0x0C, CHR 0x0D, CHR 0x20, CHR 0xA0]"

definition trim :: "string \<Rightarrow> string" where
  "trim s = rev (dropWhile is_space (rev (dropWhile is_space s)))"

definition toLowerCase_char :: "char \<Rightarrow> char" where
  "toLowerCase_char c =
     (let n = (of_char c :: nat)
      in if (65 \<le> n \<and> n \<le> 90) \<or> (192 \<le> n \<and> n \<le> 222 \<and> n \<noteq> 215)
         then char_of (n + 32) else c)"

definition toLowerCase :: "string \<Rightarrow> string" where
  "toLowerCase s = map toLowerCase_char s"

fun split_on :: "char \<Rightarrow> string \<Rightarrow> string list" where
  \<comment> \<open>\<open>s.split(c)\<close> for a one-character separator\<close>
  "split_on c [] = [[]]"
| "split_on c (x # xs) =
     (if x = c then [] # split_on c xs
      else (case split_on c xs of [] \<Rightarrow> [[x]] | f # fs \<Rightarrow> (x # f) # fs))"

fun split_row :: "string \<Rightarrow> string list" where
  \<comment> \<open>\<open>row.split(/,(?=(?:(?:[^"]*"){2})*[^"]*$)/)\<close>: a comma separates when an even
      number of double quotes follows it in the row\<close>
  "split_row [] = [[]]"
| "split_row (x # xs) =
     (if x = CHR '','' \<and> even (count_list xs quote) then [] # split_row xs
      else (case split_row xs of [] \<Rightarrow> [[x]] | f # fs \<Rightarrow> (x # f) # fs))"

definition strip_quotes :: "string \<Rightarrow> string" where
  \<comment> \<open>\<open>field.replace(/^"|"$/g, '')\<close>\<close>
  "strip_quotes s =
     (let s1 = (case s of [] \<Rightarrow> [] | c # cs \<Rightarrow> if c = quote then cs else s)
      in if s1 \<noteq> [] \<and> last s1 = quote then butlast s1 else s1)"

definition parse_rows :: "string \<Rightarrow> string list list" where
  \<comment> \<open>the constant \<open>rows\<close>\<close>
  "parse_rows csvText =
     map (\<lambda>row. map (\<lambda>field. strip_quotes (trim field)) (split_row row))
       (split_on (CHR 0x0A) (trim csvText))"

definition data_rows :: "string \<Rightarrow> string list list" where
  \<comment> \<open>\<open>rows.slice(1)\<close>\<close>
  "data_rows csvText = drop 1 (parse_rows csvText)"

subsection \<open>The host\<close>

datatype error = TypeError | RangeError

record host =
  date_parse :: "string \<Rightarrow> int option"
  local_offset :: int
  keeps_all_digits :: bool

subsection \<open>Numbers\<close>

datatype number = NegInfinity | Finite int | PosInfinity

instantiation number :: linorder
begin

fun less_eq_number :: "number \<Rightarrow> number \<Rightarrow> bool" where
  "less_eq_number NegInfinity y = True"
| "less_eq_number (Finite a) NegInfinity = False"
| "less_eq_number (Finite a) (Finite b) = (a \<le> b)"
| "less_eq_number (Finite a) PosInfinity = True"
| "less_eq_number PosInfinity NegInfinity = False"
| "less_eq_number PosInfinity (Finite b) = False"
| "less_eq_number PosInfinity PosInfinity = True"

definition less_number :: "number \<Rightarrow> number \<Rightarrow> bool" where
  "less_number x y \<longleftrightarrow> x \<le> y \<and> \<not> y \<le> x"

instance
proof
  fix x y z :: number
  show "(x < y) = (x \<le> y \<and> \<not> y \<le> x)" by (simp add: less_number_def)
  show "x \<le> x" by (cases x) simp_all
  show "x \<le> y \<Longrightarrow> y \<le> z \<Longrightarrow> x \<le> z" by (cases x; cases y; cases z) simp_all
  show "x \<le> y \<Longrightarrow> y \<le> x \<Longrightarrow> x = y" by (cases x; cases y) simp_all
  show "x \<le> y \<or> y \<le> x" by (cases x; cases y) auto
qed

end

definition is_digit :: "char \<Rightarrow> bool" where
  "is_digit c \<longleftrightarrow> 48 \<le> (of_char c :: nat) \<and> (of_char c :: nat) \<le> 57"

definition digit_val :: "char \<Rightarrow> int" where
  "digit_val c = (of_char c :: int) - 48"

definition digits_val :: "string \<Rightarrow> int" where
  "digits_val ds = foldl (\<lambda>a c. 10 * a + digit_val c) 0 ds"

function bit_length :: "int \<Rightarrow> nat" where
  "bit_length n = (if n \<le> 0 then 0 else Suc (bit_length (n div 2)))"
  by pat_completeness auto
termination
  by (relation "measure nat") auto

declare bit_length.simps [simp del]

definition round_to_double :: "int \<Rightarrow> int option" where
  \<comment> \<open>the double nearest to a non-negative integer, ties to the even significand of 53 bits;
      \<open>None\<close> when that is beyond the largest double\<close>
  "round_to_double n =
     (if n < 2 ^ 53 then Some n
      else let e = bit_length n - 53;
               q = n div 2 ^ e;
               r = n mod 2 ^ e;
               q' = (if 2 * r > 2 ^ e \<or> (2 * r = 2 ^ e \<and> odd q) then q + 1 else q)
           in if q' * 2 ^ e \<ge> 2 ^ 1024 then None else Some (q' * 2 ^ e))"

definition to_number :: "bool \<Rightarrow> int \<Rightarrow> number" where
  "to_number neg n =
     (case round_to_double n of
        None \<Rightarrow> if neg then NegInfinity else PosInfinity
      | Some v \<Rightarrow> Finite (if neg then - v else v))"

definition mathInt :: "host \<Rightarrow> string \<Rightarrow> int" where
  \<comment> \<open>the integer that a run of decimal digits denotes; beyond 20 significant digits an
      engine may read the further digits as 0\<close>
  "mathInt h ds =
     (let sig = dropWhile (\<lambda>c. c = CHR ''0'') ds
      in if length sig \<le> 20 \<or> keeps_all_digits h then digits_val ds
         else digits_val (take 20 sig) * 10 ^ (length sig - 20))"

definition parseInt :: "host \<Rightarrow> string \<Rightarrow> number option" where
  \<comment> \<open>\<open>parseInt(s, 10)\<close>: leading white space, an optional sign, the longest run of
      decimal digits; \<open>NaN\<close> when that run is empty\<close>
  "parseInt h s =
     (let s1 = dropWhile is_space s;
          neg = (s1 \<noteq> [] \<and> hd s1 = CHR ''-'');
          s2 = (if s1 \<noteq> [] \<and> (hd s1 = CHR ''-'' \<or> hd s1 = CHR ''+'') then tl s1 else s1);
          ds = takeWhile is_digit s2
      in if ds = [] then None else Some (to_number neg (mathInt h ds)))"

definition truthy_number :: "number \<Rightarrow> bool" where
  "truthy_number v \<longleftrightarrow> v \<noteq> Finite 0"

definition or_zero :: "number option \<Rightarrow> number" where
  \<comment> \<open>\<open>x || 0\<close> for a number, \<open>NaN\<close> or \<open>undefined\<close> \<open>x\<close>\<close>
  "or_zero x = (case x of None \<Rightarrow> Finite 0 | Some v \<Rightarrow> if truthy_number v then v else Finite 0)"

definition or_Infinity :: "number option \<Rightarrow> number" where
  \<comment> \<open>\<open>x || Infinity\<close>\<close>
  "or_Infinity x = (case x of None \<Rightarrow> PosInfinity | Some v \<Rightarrow> if truthy_number v then v else PosInfinity)"

definition gt_num :: "'a::ord option \<Rightarrow> 'a option \<Rightarrow> bool" where
  \<comment> \<open>\<open>a > b\<close> on numbers: false when either side is \<open>NaN\<close> or \<open>undefined\<close>\<close>
  "gt_num a b = (case (a, b) of (Some x, Some y) \<Rightarrow> x > y | _ \<Rightarrow> False)"

definition lt_num :: "'a::ord option \<Rightarrow> 'a option \<Rightarrow> bool" where
  "lt_num a b = (case (a, b) of (Some x, Some y) \<Rightarrow> x < y | _ \<Rightarrow> False)"

definition ge_num :: "'a::ord option \<Rightarrow> 'a option \<Rightarrow> bool" where
  "ge_num a b = (case (a, b) of (Some x, Some y) \<Rightarrow> x \<ge> y | _ \<Rightarrow> False)"

definition le_num :: "'a::ord option \<Rightarrow> 'a option \<Rightarrow> bool" where
  "le_num a b = (case (a, b) of (Some x, Some y) \<Rightarrow> x \<le> y | _ \<Rightarrow> False)"

subsection \<open>Dates\<close>

definition time_clip :: "int \<Rightarrow> int option" where
  "time_clip t = (if \<bar>t\<bar> \<le> 8640000000000000 then Some t else None)"

definition new_Date :: "host \<Rightarrow> string \<Rightarrow> int option" where
  "new_Date h s = (case date_parse h s of None \<Rightarrow> None | Some t \<Rightarrow> time_clip t)"

definition local_hour :: "host \<Rightarrow> int \<Rightarrow> int" where
  "local_hour h t = ((t + local_offset h) div 3600000) mod 24"

definition local_minute :: "host \<Rightarrow> int \<Rightarrow> int" where
  "local_minute h t = ((t + local_offset h) div 60000) mod 60"

definition getHours :: "host \<Rightarrow> int option \<Rightarrow> int option" where
  "getHours h d = map_option (local_hour h) d"

definition setHours :: "host \<Rightarrow> int option \<Rightarrow> int option \<Rightarrow> int option" where
  \<comment> \<open>the date \<open>d\<close> after \<open>d.setHours(hour)\<close>: same local day, minute, second and
      millisecond, the hour replaced (an hour of 24 is the next day)\<close>
  "setHours h d hour =
     (case (d, hour) of
        (Some t, Some x) \<Rightarrow> time_clip (t + (x - local_hour h t) * 3600000)
      | _ \<Rightarrow> None)"

definition pad2 :: "int \<Rightarrow> string" where
  "pad2 n = [char_of (48 + nat (n div 10)), char_of (48 + nat (n mod 10))]"

definition toLocaleTimeString :: "host \<Rightarrow> int option \<Rightarrow> string" where
  \<comment> \<open>\<open>d.toLocaleTimeString('en-US', {hour: '2-digit', minute: '2-digit', hour12: false})\<close>\<close>
  "toLocaleTimeString h d =
     (case d of None \<Rightarrow> ''Invalid Date''
      | Some t \<Rightarrow> pad2 (local_hour h t) @ '':'' @ pad2 (local_minute h t))"

definition toISOString :: "int option \<Rightarrow> error + int" where
  "toISOString d = (case d of None \<Rightarrow> Inl RangeError | Some t \<Rightarrow> Inr t)"

subsection \<open>The data of the dashboard\<close>

record RideData =
  ride_name :: string
  wait_time :: number
  last_update :: string
  is_open :: bool
  timestamp :: int

record RideMaxMinData =
  mm_ride_name :: string
  max_wait_time :: "number option"
  min_wait_time :: "number option"
  mm_timestamp :: int

record TimeDataEntry =
  time :: string
  waitTime :: "number option"
  isOpen :: bool

record ProcessedData =
  currentData :: "RideData list"
  maxData :: "RideMaxMinData list"
  minData :: "RideMaxMinData list"
  timeData :: "(string \<times> TimeDataEntry list) list"
  latestTimestamp :: "int option"

subsection \<open>Objects as dictionaries\<close>

text \<open>
  The four dictionaries are created as \<open>{}\<close>, so a read \<open>obj[key]\<close> that finds no own
  property goes on to \<open>Object.prototype\<close>. What the code does with the value read is
  test it for truthiness and read an entry's property from it, so a value read is: nothing
  (\<open>undefined\<close>), an entry, or another value with its truthiness (a function or object of
  \<open>Object.prototype\<close>, or a string or number read from a prototype that is an entry).
\<close>

definition Object_prototype_names :: "string list" where
  "Object_prototype_names =
     [''constructor'', ''__defineGetter__'', ''__defineSetter__'', ''hasOwnProperty'',
      ''__lookupGetter__'', ''__lookupSetter__'', ''isPrototypeOf'', ''propertyIsEnumerable'',
      ''toString'', ''valueOf'', ''__proto__'', ''toLocaleString'']"

datatype 'v lookup = Undefined | Own 'v | Other bool

definition truthy :: "'v lookup \<Rightarrow> bool" where
  "truthy x = (case x of Undefined \<Rightarrow> False | Own v \<Rightarrow> True | Other b \<Rightarrow> b)"

definition read_prop :: "('v \<Rightarrow> 'a option) \<Rightarrow> 'v lookup \<Rightarrow> 'a option" where
  \<comment> \<open>\<open>x.p\<close> for a truthy \<open>x\<close>: \<open>undefined\<close> unless \<open>x\<close> is an entry\<close>
  "read_prop p x = (case x of Own v \<Rightarrow> p v | _ \<Rightarrow> None)"

definition get :: "(string \<times> 'v) list \<Rightarrow> string \<Rightarrow> 'v lookup" where
  \<comment> \<open>\<open>obj[key]\<close> on an object whose prototype is \<open>Object.prototype\<close>\<close>
  "get obj key =
     (case map_of obj key of
        Some v \<Rightarrow> Own v
      | None \<Rightarrow> if key \<in> set Object_prototype_names then Other True else Undefined)"

text \<open>
  \<open>maxWaitTimes\<close> and \<open>minWaitTimes\<close>: an assignment under the name \<open>__proto__\<close> runs
  the setter of \<open>Object.prototype\<close> and makes the assigned entry the prototype of the
  dictionary, without an own property; the properties of that entry are then inherited.
\<close>

record dict =
  props :: "(string \<times> RideMaxMinData) list"
  prototype :: "RideMaxMinData option"

definition entry_property :: "RideMaxMinData \<Rightarrow> string \<Rightarrow> bool option" where
  \<comment> \<open>the truthiness of the property of an entry object, if it has that property; an
      entry is written as \<open>{ride_name, max_wait_time, timestamp}\<close> or as
      \<open>{ride_name, min_wait_time, timestamp}\<close>\<close>
  "entry_property e key =
     (if key = ''ride_name'' then Some (mm_ride_name e \<noteq> [])
      else if key = ''timestamp'' then Some True
      else if key = ''max_wait_time'' then map_option truthy_number (max_wait_time e)
      else if key = ''min_wait_time'' then map_option truthy_number (min_wait_time e)
      else None)"

definition dict_get :: "dict \<Rightarrow> string \<Rightarrow> RideMaxMinData lookup" where
  "dict_get d key =
     (case map_of (props d) key of
        Some e \<Rightarrow> Own e
      | None \<Rightarrow>
          (case prototype d of
             None \<Rightarrow> if key \<in> set Object_prototype_names then Other True else Undefined
           | Some p \<Rightarrow>
               if key = ''__proto__'' then Own p
               else (case entry_property p key of
                       Some b \<Rightarrow> Other b
                     | None \<Rightarrow> if key \<in> set Object_prototype_names then Other True
                               else Undefined)))"

definition dict_put :: "dict \<Rightarrow> string \<Rightarrow> RideMaxMinData \<Rightarrow> dict" where
  \<comment> \<open>\<open>obj[key] = entry\<close>\<close>
  "dict_put d key e =
     (if key = ''__proto__'' then d\<lparr>prototype := Some e\<rparr>
      else d\<lparr>props := AList.update key e (props d)\<rparr>)"

definition empty_dict :: dict where
  "empty_dict = \<lparr>props = [], prototype = None\<rparr>"

definition is_array_index :: "string \<Rightarrow> bool" where
  \<comment> \<open>the canonical decimal form of an integer from 0 to \<open>2^32 - 2\<close>\<close>
  "is_array_index key \<longleftrightarrow>
     key \<noteq> [] \<and> list_all is_digit key \<and> (key = ''0'' \<or> hd key \<noteq> CHR ''0'')
     \<and> digits_val key \<le> 4294967294"

definition own_properties :: "(string \<times> 'v) list \<Rightarrow> (string \<times> 'v) list" where
  \<comment> \<open>the own properties in the order of enumeration: array indices ascending, then
      the other names in creation order\<close>
  "own_properties obj =
     sort_key (\<lambda>p. digits_val (fst p)) (filter (\<lambda>p. is_array_index (fst p)) obj)
     @ filter (\<lambda>p. \<not> is_array_index (fst p)) obj"

definition Object_values :: "(string \<times> 'v) list \<Rightarrow> 'v list" where
  "Object_values obj = map snd (own_properties obj)"

text \<open>The constants that the body of the \<open>forEach\<close> callback computes from one row.\<close>

record row_locals =
  numericWaitTime :: number
  isRideOpen :: bool
  rideKey :: string
  lastUpdate :: string
  currentDate :: "int option"
  currentHour :: "int option"

text \<open>The four dictionaries that the callback updates.\<close>

record acc =
  latestEntries :: "(string \<times> RideData) list"
  maxWaitTimes :: dict
  minWaitTimes :: dict
  timeDataAcc :: "(string \<times> TimeDataEntry list) list"

definition empty_acc :: acc where
  "empty_acc = \<lparr>latestEntries = [], maxWaitTimes = empty_dict, minWaitTimes = empty_dict,
                 timeDataAcc = []\<rparr>"

subsection \<open>The callback of \<open>rows.slice(1).forEach\<close>\<close>

definition row_constants :: "host \<Rightarrow> string \<Rightarrow> string \<Rightarrow> string \<Rightarrow> string \<Rightarrow> string \<Rightarrow> row_locals" where
  "row_constants h timestampField rideName waitTimeField lastUpd isOpenField =
     (let d0 = new_Date h timestampField;
          d1 = setHours h d0 (map_option (\<lambda>x. x + 1) (getHours h d0))
      in \<lparr>numericWaitTime = or_zero (parseInt h waitTimeField),
          isRideOpen = (toLowerCase isOpenField = ''true''),
          rideKey = trim rideName,
          lastUpdate = lastUpd,
          currentDate = d1,
          currentHour = getHours h d1\<rparr>)"

definition push_timeData ::
  "host \<Rightarrow> row_locals \<Rightarrow> (string \<times> TimeDataEntry list) list
     \<Rightarrow> error + (string \<times> TimeDataEntry list) list" where
  \<comment> \<open>\<open>timeData[rideKey].push\<close> is \<open>undefined\<close> on a value that is no array: the call
      throws a TypeError\<close>
  "push_timeData h r td =
     (let td1 = (if \<not> truthy (get td (rideKey r)) then AList.update (rideKey r) [] td else td)
      in if ge_num (currentHour r) (Some 8) \<and> le_num (currentHour r) (Some 21)
         then (case get td1 (rideKey r) of
                 Own xs \<Rightarrow>
                   Inr (AList.update (rideKey r)
                          (xs @ [\<lparr>time = toLocaleTimeString h (currentDate r),
                                   waitTime = (if isRideOpen r then Some (numericWaitTime r)
                                               else None),
                                   isOpen = isRideOpen r\<rparr>]) td1)
               | _ \<Rightarrow> Inl TypeError)
         else Inr td1)"

definition set_latest :: "row_locals \<Rightarrow> (string \<times> RideData) list \<Rightarrow> error + (string \<times> RideData) list" where
  "set_latest r les =
     (let existingDate = (if truthy (get les (rideKey r))
                          then read_prop (\<lambda>e. Some (timestamp e)) (get les (rideKey r))
                          else Some 0)
      in if \<not> truthy (get les (rideKey r)) \<or> gt_num (currentDate r) existingDate
         then (case toISOString (currentDate r) of
                 Inl e \<Rightarrow> Inl e
               | Inr isoStr \<Rightarrow>
                   Inr (AList.update (rideKey r)
                          \<lparr>ride_name = rideKey r, wait_time = numericWaitTime r,
                           last_update = lastUpdate r, is_open = isRideOpen r,
                           timestamp = isoStr\<rparr> les))
         else Inr les)"

definition store_max :: "row_locals \<Rightarrow> dict \<Rightarrow> error + dict" where
  "store_max r mx =
     (case toISOString (currentDate r) of
        Inl e \<Rightarrow> Inl e
      | Inr isoStr \<Rightarrow>
          Inr (dict_put mx (rideKey r)
                 \<lparr>mm_ride_name = rideKey r, max_wait_time = Some (numericWaitTime r),
                  min_wait_time = None, mm_timestamp = isoStr\<rparr>))"

definition store_min :: "row_locals \<Rightarrow> dict \<Rightarrow> error + dict" where
  "store_min r mn =
     (case toISOString (currentDate r) of
        Inl e \<Rightarrow> Inl e
      | Inr isoStr \<Rightarrow>
          Inr (dict_put mn (rideKey r)
                 \<lparr>mm_ride_name = rideKey r, max_wait_time = None,
                  min_wait_time = Some (numericWaitTime r), mm_timestamp = isoStr\<rparr>))"

definition set_max :: "row_locals \<Rightarrow> dict \<Rightarrow> error + dict" where
  \<comment> \<open>plain dashboard: \<open>numericWaitTime > maxWaitTimes[rideKey].max_wait_time!\<close>\<close>
  "set_max r mx =
     (if \<not> truthy (dict_get mx (rideKey r))
         \<or> gt_num (Some (numericWaitTime r)) (read_prop max_wait_time (dict_get mx (rideKey r)))
      then store_max r mx else Inr mx)"

definition set_min :: "row_locals \<Rightarrow> dict \<Rightarrow> error + dict" where
  \<comment> \<open>plain dashboard: \<open>numericWaitTime < minWaitTimes[rideKey].min_wait_time!\<close>\<close>
  "set_min r mn =
     (if \<not> truthy (dict_get mn (rideKey r))
         \<or> lt_num (Some (numericWaitTime r)) (read_prop min_wait_time (dict_get mn (rideKey r)))
      then store_min r mn else Inr mn)"

definition set_max_styled :: "row_locals \<Rightarrow> dict \<Rightarrow> error + dict" where
  \<comment> \<open>styled dashboard: \<open>numericWaitTime > (maxWaitTimes[rideKey].max_wait_time || 0)\<close>\<close>
  "set_max_styled r mx =
     (if \<not> truthy (dict_get mx (rideKey r))
         \<or> numericWaitTime r > or_zero (read_prop max_wait_time (dict_get mx (rideKey r)))
      then store_max r mx else Inr mx)"

definition set_min_styled :: "row_locals \<Rightarrow> dict \<Rightarrow> error + dict" where
  \<comment> \<open>styled dashboard: \<open>numericWaitTime < (minWaitTimes[rideKey].min_wait_time || Infinity)\<close>\<close>
  "set_min_styled r mn =
     (if \<not> truthy (dict_get mn (rideKey r))
         \<or> numericWaitTime r < or_Infinity (read_prop min_wait_time (dict_get mn (rideKey r)))
      then store_min r mn else Inr mn)"

definition aggregate :: "host \<Rightarrow> row_locals \<Rightarrow> acc \<Rightarrow> error + acc" where
  \<comment> \<open>plain dashboard, the callback after its constants\<close>
  "aggregate h r st =
     (case push_timeData h r (timeDataAcc st) of
        Inl e \<Rightarrow> Inl e
      | Inr td \<Rightarrow>
     (case set_latest r (latestEntries st) of
        Inl e \<Rightarrow> Inl e
      | Inr les \<Rightarrow>
          if isRideOpen r then
            (case set_max r (maxWaitTimes st) of
               Inl e \<Rightarrow> Inl e
             | Inr mx \<Rightarrow>
                 if ge_num (currentHour r) (Some 10) \<and> lt_num (currentHour r) (Some 18) then
                   (case set_min r (minWaitTimes st) of
                      Inl e \<Rightarrow> Inl e
                    | Inr mn \<Rightarrow>
                        Inr \<lparr>latestEntries = les, maxWaitTimes = mx, minWaitTimes = mn,
                             timeDataAcc = td\<rparr>)
                 else Inr \<lparr>latestEntries = les, maxWaitTimes = mx,
                           minWaitTimes = minWaitTimes st, timeDataAcc = td\<rparr>)
          else Inr \<lparr>latestEntries = les, maxWaitTimes = maxWaitTimes st,
                    minWaitTimes = minWaitTimes st, timeDataAcc = td\<rparr>))"

definition aggregate_styled :: "host \<Rightarrow> row_locals \<Rightarrow> acc \<Rightarrow> error + acc" where
  \<comment> \<open>styled dashboard, the callback after its constants\<close>
  "aggregate_styled h r st =
     (case push_timeData h r (timeDataAcc st) of
        Inl e \<Rightarrow> Inl e
      | Inr td \<Rightarrow>
     (case set_latest r (latestEntries st) of
        Inl e \<Rightarrow> Inl e
      | Inr les \<Rightarrow>
          if isRideOpen r then
            (case set_max_styled r (maxWaitTimes st) of
               Inl e \<Rightarrow> Inl e
             | Inr mx \<Rightarrow>
                 if ge_num (currentHour r) (Some 10) \<and> lt_num (currentHour r) (Some 18) then
                   (case set_min_styled r (minWaitTimes st) of
                      Inl e \<Rightarrow> Inl e
                    | Inr mn \<Rightarrow>
                        Inr \<lparr>latestEntries = les, maxWaitTimes = mx, minWaitTimes = mn,
                             timeDataAcc = td\<rparr>)
                 else Inr \<lparr>latestEntries = les, maxWaitTimes = mx,
                           minWaitTimes = minWaitTimes st, timeDataAcc = td\<rparr>)
          else Inr \<lparr>latestEntries = les, maxWaitTimes = maxWaitTimes st,
                    minWaitTimes = minWaitTimes st, timeDataAcc = td\<rparr>))"

definition row_reading :: "host \<Rightarrow> string list \<Rightarrow> row_locals option" where
  \<comment> \<open>the destructuring \<open>[timestamp, rideName, waitTime, lastUpdate, isOpen]\<close>; with fewer
      than five fields \<open>isOpen\<close> is \<open>undefined\<close>\<close>
  "row_reading h cells =
     (case cells of
        timestampField # rideName # waitTimeField # lastUpd # isOpenField # _ \<Rightarrow>
          Some (row_constants h timestampField rideName waitTimeField lastUpd isOpenField)
      | _ \<Rightarrow> None)"

definition process_row :: "host \<Rightarrow> string list \<Rightarrow> acc \<Rightarrow> error + acc" where
  \<comment> \<open>\<open>isOpen.toLowerCase()\<close> throws a TypeError on \<open>undefined\<close>\<close>
  "process_row h cells st =
     (case row_reading h cells of None \<Rightarrow> Inl TypeError | Some r \<Rightarrow> aggregate h r st)"

definition process_row_styled :: "host \<Rightarrow> string list \<Rightarrow> acc \<Rightarrow> error + acc" where
  "process_row_styled h cells st =
     (case row_reading h cells of None \<Rightarrow> Inl TypeError | Some r \<Rightarrow> aggregate_styled h r st)"

fun forEach :: "('a \<Rightarrow> acc \<Rightarrow> error + acc) \<Rightarrow> 'a list \<Rightarrow> acc \<Rightarrow> error + acc" where
  "forEach f [] st = Inr st"
| "forEach f (x # xs) st = (case f x st of Inl e \<Rightarrow> Inl e | Inr st' \<Rightarrow> forEach f xs st')"

subsection \<open>Sorting the series and assembling the result\<close>

definition compare_time :: "host \<Rightarrow> TimeDataEntry \<Rightarrow> TimeDataEntry \<Rightarrow> int option" where
  \<comment> \<open>the comparator: the difference of two time values, \<open>NaN\<close> when one is invalid\<close>
  "compare_time h a b =
     (case (new_Date h (''1970/01/01 '' @ time a), new_Date h (''1970/01/01 '' @ time b)) of
        (Some x, Some y) \<Rightarrow> Some (x - y)
      | _ \<Rightarrow> None)"

fun insert_by :: "('a \<Rightarrow> 'a \<Rightarrow> int option) \<Rightarrow> 'a \<Rightarrow> 'a list \<Rightarrow> 'a list" where
  "insert_by cmp x [] = [x]"
| "insert_by cmp x (y # ys) =
     (if gt_num (cmp x y) (Some 0) then y # insert_by cmp x ys else x # y # ys)"

definition array_sort :: "('a \<Rightarrow> 'a \<Rightarrow> int option) \<Rightarrow> 'a list \<Rightarrow> 'a list" where
  \<comment> \<open>\<open>Array.prototype.sort\<close> with a comparator: a stable sort, here by insertion; a
      \<open>NaN\<close> from the comparator counts as \<open>+0\<close>\<close>
  "array_sort cmp xs = foldr (insert_by cmp) xs []"

definition sort_timeData :: "host \<Rightarrow> (string \<times> TimeDataEntry list) list \<Rightarrow> (string \<times> TimeDataEntry list) list" where
  "sort_timeData h td = map (\<lambda>(key, xs). (key, array_sort (compare_time h) xs)) td"

definition reduce_max :: "RideData list \<Rightarrow> int" where
  \<comment> \<open>\<open>currentData.reduce((max, entry) => Math.max(max, new Date(entry.timestamp).getTime()), 0)\<close>\<close>
  "reduce_max es = foldl (\<lambda>m entry. max m (timestamp entry)) 0 es"

definition assemble :: "host \<Rightarrow> acc \<Rightarrow> error + ProcessedData" where
  "assemble h st =
     (let td = own_properties (sort_timeData h (timeDataAcc st));
          cur = Object_values (latestEntries st);
          mxs = Object_values (props (maxWaitTimes st));
          mns = Object_values (props (minWaitTimes st));
          latest = (if length cur > 0 then Some (reduce_max cur) else None)
      in case latest of
           None \<Rightarrow> Inr \<lparr>currentData = cur, maxData = mxs, minData = mns, timeData = td,
                        latestTimestamp = None\<rparr>
         | Some v \<Rightarrow>
             if v = 0 then Inr \<lparr>currentData = cur, maxData = mxs, minData = mns, timeData = td,
                                latestTimestamp = None\<rparr>
             else (case toISOString (time_clip v) of
                     Inl e \<Rightarrow> Inl e
                   | Inr isoStr \<Rightarrow> Inr \<lparr>currentData = cur, maxData = mxs, minData = mns,
                                      timeData = td, latestTimestamp = Some isoStr\<rparr>))"

definition processCSVData :: "host \<Rightarrow> string \<Rightarrow> error + ProcessedData" where
  \<comment> \<open>the plain dashboard\<close>
  "processCSVData h csvText =
     (case forEach (process_row h) (data_rows csvText) empty_acc of
        Inl e \<Rightarrow> Inl e
      | Inr st \<Rightarrow> assemble h st)"

definition processCSVData_styled :: "host \<Rightarrow> string \<Rightarrow> error + ProcessedData" where
  \<comment> \<open>the styled dashboard\<close>
  "processCSVData_styled h csvText =
     (case forEach (process_row_styled h) (data_rows csvText) empty_acc of
        Inl e \<Rightarrow> Inl e
      | Inr st \<Rightarrow> assemble h st)"

subsection \<open>A sample host\<close>

text \<open>
  A host whose local time is UTC, whose parser reads the two shapes
  \<open>YYYY-MM-DDTHH:MM:SS\<close> (a date-time without offset: local time) and
  \<open>YYYY/MM/DD HH:MM\<close> (every other string is an invalid date), and whose \<open>parseInt\<close>
  keeps all digits.
\<close>

definition number :: "string \<Rightarrow> int option" where
  "number s = (if s \<noteq> [] \<and> list_all is_digit s then Some (digits_val s) else None)"

definition days_from_civil :: "int \<Rightarrow> int \<Rightarrow> int \<Rightarrow> int" where
  "days_from_civil y m d =
     (let y1 = (if m \<le> 2 then y - 1 else y);
          era = y1 div 400;
          yoe = y1 - era * 400;
          mp = (m + 9) mod 12;
          doy = (153 * mp + 2) div 5 + d - 1;
          doe = yoe * 365 + yoe div 4 - yoe div 100 + doy
      in era * 146097 + doe - 719468)"

definition make_time :: "int option \<Rightarrow> int option \<Rightarrow> int option \<Rightarrow> int option \<Rightarrow> int option \<Rightarrow> int option \<Rightarrow> int option" where
  "make_time y m d hh mi ss =
     (case (y, m, d, hh, mi, ss) of
        (Some y, Some m, Some d, Some hh, Some mi, Some ss) \<Rightarrow>
          if 1 \<le> m \<and> m \<le> 12 \<and> 1 \<le> d \<and> d \<le> 31 \<and> hh \<le> 23 \<and> mi \<le> 59 \<and> ss \<le> 59
          then Some (((days_from_civil y m d * 24 + hh) * 60 + mi) * 60000 + ss * 1000)
          else None
      | _ \<Rightarrow> None)"

definition sub :: "string \<Rightarrow> nat \<Rightarrow> nat \<Rightarrow> string" where
  "sub s i n = take n (drop i s)"

definition sample_parse :: "string \<Rightarrow> int option" where
  "sample_parse s =
     (if length s = 19 \<and> sub s 4 1 = ''-'' \<and> sub s 7 1 = ''-'' \<and> sub s 10 1 = ''T''
         \<and> sub s 13 1 = '':'' \<and> sub s 16 1 = '':''
      then make_time (number (sub s 0 4)) (number (sub s 5 2)) (number (sub s 8 2))
             (number (sub s 11 2)) (number (sub s 14 2)) (number (sub s 17 2))
      else if length s = 16 \<and> sub s 4 1 = ''/'' \<and> sub s 7 1 = ''/'' \<and> sub s 10 1 = '' ''
         \<and> sub s 13 1 = '':''
      then make_time (number (sub s 0 4)) (number (sub s 5 2)) (number (sub s 8 2))
             (number (sub s 11 2)) (number (sub s 14 2)) (Some 0)
      else None)"

definition utc_host :: host where
  "utc_host = \<lparr>date_parse = sample_parse, local_offset = 0, keeps_all_digits = True\<rparr>"

subsection \<open>Notions of the specification\<close>

text \<open>
  The reading of a row as the specification normalizes it: the wait is the integer
  parsed, or 0; the open flag is the field compared, without case, with \<open>true\<close>; the
  ride key is the trimmed name; the adjusted timestamp is the timestamp parsed plus exactly
  one hour; the hour of day is the local hour of the adjusted timestamp. The readings of
  a text are the readings of its data rows, in row order.

  The entries of the summary are described with the first reading that attains a maximum
  or a minimum. On dates the order of \<open>int option\<close> is used: \<open>None\<close> (an invalid date) is
  below every valid date.
\<close>

definition adjusted_timestamp :: "host \<Rightarrow> string \<Rightarrow> int option" where
  "adjusted_timestamp h ts =
     (case new_Date h ts of None \<Rightarrow> None | Some t \<Rightarrow> time_clip (t + 3600000))"

definition normalize_row :: "host \<Rightarrow> string list \<Rightarrow> row_locals option" where
  "normalize_row h cells =
     (case cells of
        ts # name # w # upd # opn # _ \<Rightarrow>
          Some \<lparr>numericWaitTime = (case parseInt h w of None \<Rightarrow> Finite 0 | Some v \<Rightarrow> v),
                isRideOpen = (toLowerCase opn = ''true''),
                rideKey = trim name,
                lastUpdate = upd,
                currentDate = adjusted_timestamp h ts,
                currentHour = map_option (local_hour h) (adjusted_timestamp h ts)\<rparr>
      | _ \<Rightarrow> None)"

definition rows_readings :: "host \<Rightarrow> string list list \<Rightarrow> row_locals list" where
  "rows_readings h rows = List.map_filter (normalize_row h) rows"

definition readings :: "host \<Rightarrow> string \<Rightarrow> row_locals list" where
  "readings h csvText = rows_readings h (data_rows csvText)"

definition ride_readings :: "string \<Rightarrow> row_locals list \<Rightarrow> row_locals list" where
  "ride_readings k rs = filter (\<lambda>r. rideKey r = k) rs"

definition open_readings :: "string \<Rightarrow> row_locals list \<Rightarrow> row_locals list" where
  "open_readings k rs = filter isRideOpen (ride_readings k rs)"

definition in_display_window :: "row_locals \<Rightarrow> bool" where
  "in_display_window r = (case currentHour r of None \<Rightarrow> False | Some x \<Rightarrow> 8 \<le> x \<and> x \<le> 21)"

definition in_trough_window :: "row_locals \<Rightarrow> bool" where
  "in_trough_window r = (case currentHour r of None \<Rightarrow> False | Some x \<Rightarrow> 10 \<le> x \<and> x < 18)"

definition trough_readings :: "string \<Rightarrow> row_locals list \<Rightarrow> row_locals list" where
  "trough_readings k rs = filter (\<lambda>r. isRideOpen r \<and> in_trough_window r) (ride_readings k rs)"

definition first_with_max :: "('a \<Rightarrow> 'k::linorder) \<Rightarrow> 'a list \<Rightarrow> 'a option" where
  "first_with_max key xs = find (\<lambda>x. key x = Max (set (map key xs))) xs"

definition first_with_min :: "('a \<Rightarrow> 'k::linorder) \<Rightarrow> 'a list \<Rightarrow> 'a option" where
  "first_with_min key xs = find (\<lambda>x. key x = Min (set (map key xs))) xs"

definition clock_label :: "int \<Rightarrow> int \<Rightarrow> string" where
  "clock_label hh mm = pad2 hh @ '':'' @ pad2 mm"

definition series_point :: "host \<Rightarrow> row_locals \<Rightarrow> TimeDataEntry" where
  "series_point h r =
     \<lparr>time = (case currentDate r of
                None \<Rightarrow> []
              | Some t \<Rightarrow> clock_label (local_hour h t) (local_minute h t)),
      waitTime = (if isRideOpen r then Some (numericWaitTime r) else None),
      isOpen = isRideOpen r\<rparr>"

definition display_points :: "host \<Rightarrow> string \<Rightarrow> row_locals list \<Rightarrow> TimeDataEntry list" where
  "display_points h k rs = map (series_point h) (filter in_display_window (ride_readings k rs))"

definition series_of :: "ProcessedData \<Rightarrow> string \<Rightarrow> TimeDataEntry list" where
  \<comment> \<open>the series of a ride in the result, empty when the ride has none\<close>
  "series_of out k = (case map_of (timeData out) k of None \<Rightarrow> [] | Some s \<Rightarrow> s)"


definition ordinary :: "string \<Rightarrow> bool" where
  \<comment> \<open>a ride key that is no name inherited from \<open>Object.prototype\<close>\<close>
  "ordinary k \<longleftrightarrow> k \<notin> set Object_prototype_names"

subsection \<open>Entries of the summary and invariants of the fold\<close>

text \<open>
  The entry that a reading gives in each dictionary, what each dictionary has to hold
  after the readings \<open>rs\<close> (nothing under a name of \<open>Object.prototype\<close>), and the
  invariants of the fold: a dictionary agrees with its specification on every key.
\<close>

definition latest_entry :: "row_locals \<Rightarrow> RideData option" where
  "latest_entry x =
     map_option (\<lambda>t. \<lparr>ride_name = rideKey x, wait_time = numericWaitTime x,
                       last_update = lastUpdate x, is_open = isRideOpen x, timestamp = t\<rparr>)
       (currentDate x)"

definition peak_entry :: "row_locals \<Rightarrow> RideMaxMinData option" where
  "peak_entry x =
     map_option (\<lambda>t. \<lparr>mm_ride_name = rideKey x, max_wait_time = Some (numericWaitTime x),
                       min_wait_time = None, mm_timestamp = t\<rparr>)
       (currentDate x)"

definition trough_entry :: "row_locals \<Rightarrow> RideMaxMinData option" where
  "trough_entry x =
     map_option (\<lambda>t. \<lparr>mm_ride_name = rideKey x, max_wait_time = None,
                       min_wait_time = Some (numericWaitTime x), mm_timestamp = t\<rparr>)
       (currentDate x)"

definition latest_spec :: "string \<Rightarrow> row_locals list \<Rightarrow> RideData option" where
  "latest_spec k rs =
     (if ordinary k then Option.bind (first_with_max currentDate (ride_readings k rs)) latest_entry
      else None)"

definition peak_spec :: "string \<Rightarrow> row_locals list \<Rightarrow> RideMaxMinData option" where
  "peak_spec k rs =
     (if ordinary k then Option.bind (first_with_max numericWaitTime (open_readings k rs)) peak_entry
      else None)"

definition trough_spec :: "string \<Rightarrow> row_locals list \<Rightarrow> RideMaxMinData option" where
  "trough_spec k rs =
     (if ordinary k
      then Option.bind (first_with_min numericWaitTime (trough_readings k rs)) trough_entry
      else None)"

definition series_spec :: "host \<Rightarrow> string \<Rightarrow> row_locals list \<Rightarrow> TimeDataEntry list option" where
  "series_spec h k rs =
     (if ordinary k \<and> ride_readings k rs \<noteq> [] then Some (display_points h k rs) else None)"

definition table_inv :: "('k \<times> 'v) list \<Rightarrow> ('k \<Rightarrow> 'v option) \<Rightarrow> ('k \<Rightarrow> bool) \<Rightarrow> bool" where
  "table_inv al spec present \<longleftrightarrow>
     distinct (map fst al) \<and> (\<forall>k. map_of al k = spec k \<and> (present k \<longrightarrow> map_of al k \<noteq> None))"

definition latest_inv :: "(string \<times> RideData) list \<Rightarrow> row_locals list \<Rightarrow> bool" where
  "latest_inv les rs =
     table_inv les (\<lambda>k. latest_spec k rs) (\<lambda>k. ordinary k \<and> ride_readings k rs \<noteq> [])"

definition peak_inv :: "dict \<Rightarrow> row_locals list \<Rightarrow> bool" where
  "peak_inv mx rs \<longleftrightarrow>
     prototype mx = None
     \<and> table_inv (props mx) (\<lambda>k. peak_spec k rs) (\<lambda>k. ordinary k \<and> open_readings k rs \<noteq> [])"

definition trough_inv :: "dict \<Rightarrow> row_locals list \<Rightarrow> bool" where
  "trough_inv mn rs \<longleftrightarrow>
     prototype mn = None
     \<and> table_inv (props mn) (\<lambda>k. trough_spec k rs) (\<lambda>k. ordinary k \<and> trough_readings k rs \<noteq> [])"

definition series_inv :: "host \<Rightarrow> (string \<times> TimeDataEntry list) list \<Rightarrow> row_locals list \<Rightarrow> bool" where
  "series_inv h td rs =
     table_inv td (\<lambda>k. series_spec h k rs) (\<lambda>k. ordinary k \<and> ride_readings k rs \<noteq> [])"

definition reading_wf :: "host \<Rightarrow> row_locals \<Rightarrow> bool" where
  "reading_wf h r \<longleftrightarrow>
     currentHour r = map_option (local_hour h) (currentDate r)
     \<and> (\<forall>t. currentDate r = Some t \<longrightarrow> \<bar>t\<bar> \<le> 8640000000000000)"

definition common_inv :: "host \<Rightarrow> acc \<Rightarrow> row_locals list \<Rightarrow> bool" where
  "common_inv h st rs \<longleftrightarrow>
     latest_inv (latestEntries st) rs \<and> series_inv h (timeDataAcc st) rs
     \<and> list_all (\<lambda>r. ordinary (rideKey r) \<or> \<not> in_display_window r) rs"

definition plain_inv :: "acc \<Rightarrow> row_locals list \<Rightarrow> bool" where
  "plain_inv st rs \<longleftrightarrow> peak_inv (maxWaitTimes st) rs \<and> trough_inv (minWaitTimes st) rs"

subsection \<open>Conditions on rows and hosts\<close>

definition row_dated :: "host \<Rightarrow> string list \<Rightarrow> bool" where
  \<comment> \<open>a row of at least five fields whose adjusted timestamp is a valid date and whose ride
      key is no name of \<open>Object.prototype\<close>\<close>
  "row_dated h cells =
     (case cells of
        ts # name # _ # _ # _ # _ \<Rightarrow> adjusted_timestamp h ts \<noteq> None \<and> ordinary (trim name)
      | _ \<Rightarrow> False)"

definition would_be_stored :: "host \<Rightarrow> string list list \<Rightarrow> string list \<Rightarrow> bool" where
  \<comment> \<open>the reading of the row is, after the readings of the earlier rows, the first of its
      ride, or it is open and its wait is above the wait of every earlier open reading of
      its ride; the ride key being no name of \<open>Object.prototype\<close>\<close>
  "would_be_stored h earlier cells =
     (case normalize_row h cells of
        None \<Rightarrow> False
      | Some r \<Rightarrow>
          ordinary (rideKey r)
          \<and> (ride_readings (rideKey r) (rows_readings h earlier) = []
               \<or> (isRideOpen r
                    \<and> list_all (\<lambda>x. numericWaitTime x < numericWaitTime r)
                         (open_readings (rideKey r) (rows_readings h earlier)))))"

definition reads_clock_labels :: "host \<Rightarrow> bool" where
  \<comment> \<open>the parser of the host reads every clock label after \<open>1970/01/01\<close> as a date\<close>
  "reads_clock_labels h \<longleftrightarrow>
     (\<forall>hh \<in> set [0..23]. \<forall>mm \<in> set [0..59].
        new_Date h (''1970/01/01 '' @ clock_label hh mm) \<noteq> None)"

subsection \<open>Sample texts\<close>

definition tie_text :: string where
  "tie_text = ''ts,name,wait,upd,open\<newline>2025-02-02T09:00:00,Space Mountain,10,9:00,true\<newline>2025-02-02T09:00:00,Space Mountain,40,9:05,true''"


definition scenario_1_text :: string where
  "scenario_1_text = ''ts,name,wait,upd,open\<newline>2025-02-02T09:00:00,Space Mountain,10,9:00,true\<newline>2025-02-02T11:00:00,Space Mountain,40,11:00,true\<newline>2025-02-02T15:00:00,Space Mountain,5,15:00,true''"

definition lenient_text :: string where
  "lenient_text = ''h\<newline>2025-02-02T10:00:00,R,abc,x,maybe\<newline>2025-02-02T11:00:00,R,,y,TRUE''"

definition blank_line_text :: string where
  "blank_line_text = ''h\<newline>2025-02-02T10:00:00,R,5,x,true\<newline>\<newline>2025-02-02T11:00:00,R,30,x,true''"

definition bad_stamp_text :: string where
  "bad_stamp_text = ''h\<newline>2025-02-02T10:00:00,R,5,x,true\<newline>abc,R,3,y,true\<newline>2025-02-02T11:00:00,R,30,z,true''"

definition bad_stamp_removed :: string where
  "bad_stamp_removed = ''h\<newline>2025-02-02T10:00:00,R,5,x,true\<newline>2025-02-02T11:00:00,R,30,z,true''"

definition bad_peak_text :: string where
  "bad_peak_text = ''h\<newline>2025-02-02T10:00:00,R,5,x,true\<newline>abc,R,9,y,true''"

section \<open>Lemmas\<close>

subsection \<open>The first element with the greatest or the least key\<close>

lemma find_append_cases:
  "find P (xs @ ys) = (case find P xs of None \<Rightarrow> find P ys | Some x \<Rightarrow> Some x)"
  by (induction xs) auto

lemma first_with_max_Nil: "first_with_max key [] = None"
  by (simp add: first_with_max_def)

lemma first_with_max_None: "first_with_max key xs = None \<longleftrightarrow> xs = []"
proof
  assume n: "first_with_max key xs = None"
  show "xs = []"
  proof (rule ccontr)
    assume "xs \<noteq> []"
    then have "Max (set (map key xs)) \<in> set (map key xs)"
      using Max_in [of "set (map key xs)"] by simp
    then obtain x where "x \<in> set xs" "key x = Max (set (map key xs))" by auto
    with n show False by (auto simp: first_with_max_def find_None_iff)
  qed
qed (simp add: first_with_max_Nil)

lemma first_with_max_Some:
  assumes "first_with_max key xs = Some x"
  shows "x \<in> set xs" and "key x = Max (set (map key xs))" and "\<forall>y \<in> set xs. key y \<le> key x"
proof -
  from assms show x: "x \<in> set xs" and k: "key x = Max (set (map key xs))"
    by (auto simp: first_with_max_def find_Some_iff)
  show "\<forall>y \<in> set xs. key y \<le> key x"
    using k by (auto intro: Max_ge)
qed

lemma first_with_max_single: "first_with_max key [x] = Some x"
  by (simp add: first_with_max_def)

lemma first_with_max_snoc_gt:
  assumes "first_with_max key xs = Some x" and "key x < key r"
  shows "first_with_max key (xs @ [r]) = Some r"
proof -
  have le: "\<forall>y \<in> set xs. key y \<le> key x" using first_with_max_Some(3) [OF assms(1)] .
  have ne: "xs \<noteq> []" using assms(1) first_with_max_None [of key xs] by auto
  have "Max (set (map key (xs @ [r]))) = key r"
    using le assms(2) by (intro Max_eqI) (auto intro: less_imp_le order_trans)
  moreover have "find (\<lambda>y. key y = key r) xs = None"
    using le assms(2) by (auto simp: find_None_iff)
  ultimately show ?thesis
    by (simp add: first_with_max_def find_append_cases)
qed

lemma first_with_max_snoc_le:
  assumes "first_with_max key xs = Some x" and "key r \<le> key x"
  shows "first_with_max key (xs @ [r]) = Some x"
proof -
  have le: "\<forall>y \<in> set xs. key y \<le> key x" using first_with_max_Some(3) [OF assms(1)] .
  have x: "x \<in> set xs" using first_with_max_Some(1) [OF assms(1)] .
  have m: "Max (set (map key (xs @ [r]))) = key x"
    using le assms(2) x by (intro Max_eqI) auto
  have m0: "Max (key ` set xs) = key x"
    using first_with_max_Some(2) [OF assms(1)] by simp
  have "find (\<lambda>y. key y = key x) xs = Some x"
    using assms(1) m0 by (simp add: first_with_max_def)
  then show ?thesis
    unfolding first_with_max_def m by (simp add: find_append_cases)
qed

lemma first_with_min_Nil: "first_with_min key [] = None"
  by (simp add: first_with_min_def)

lemma first_with_min_None: "first_with_min key xs = None \<longleftrightarrow> xs = []"
proof
  assume n: "first_with_min key xs = None"
  show "xs = []"
  proof (rule ccontr)
    assume "xs \<noteq> []"
    then have "Min (set (map key xs)) \<in> set (map key xs)"
      using Min_in [of "set (map key xs)"] by simp
    then obtain x where "x \<in> set xs" "key x = Min (set (map key xs))" by auto
    with n show False by (auto simp: first_with_min_def find_None_iff)
  qed
qed (simp add: first_with_min_Nil)

lemma first_with_min_Some:
  assumes "first_with_min key xs = Some x"
  shows "x \<in> set xs" and "key x = Min (set (map key xs))" and "\<forall>y \<in> set xs. key x \<le> key y"
proof -
  from assms show x: "x \<in> set xs" and k: "key x = Min (set (map key xs))"
    by (auto simp: first_with_min_def find_Some_iff)
  show "\<forall>y \<in> set xs. key x \<le> key y"
    using k by (auto intro: Min_le)
qed

lemma first_with_min_single: "first_with_min key [x] = Some x"
  by (simp add: first_with_min_def)

lemma first_with_min_snoc_lt:
  assumes "first_with_min key xs = Some x" and "key r < key x"
  shows "first_with_min key (xs @ [r]) = Some r"
proof -
  have le: "\<forall>y \<in> set xs. key x \<le> key y" using first_with_min_Some(3) [OF assms(1)] .
  have "Min (set (map key (xs @ [r]))) = key r"
    using le assms(2) by (intro Min_eqI) (auto intro: less_imp_le order_trans)
  moreover have "find (\<lambda>y. key y = key r) xs = None"
    using le assms(2) by (auto simp: find_None_iff)
  ultimately show ?thesis
    by (simp add: first_with_min_def find_append_cases)
qed

lemma first_with_min_snoc_ge:
  assumes "first_with_min key xs = Some x" and "key x \<le> key r"
  shows "first_with_min key (xs @ [r]) = Some x"
proof -
  have le: "\<forall>y \<in> set xs. key x \<le> key y" using first_with_min_Some(3) [OF assms(1)] .
  have x: "x \<in> set xs" using first_with_min_Some(1) [OF assms(1)] .
  have m: "Min (set (map key (xs @ [r]))) = key x"
    using le assms(2) x by (intro Min_eqI) auto
  have m0: "Min (key ` set xs) = key x"
    using first_with_min_Some(2) [OF assms(1)] by simp
  have "find (\<lambda>y. key y = key x) xs = Some x"
    using assms(1) m0 by (simp add: first_with_min_def)
  then show ?thesis
    unfolding first_with_min_def m by (simp add: find_append_cases)
qed

lemma forEach_append:
  "forEach f (xs @ ys) st = (case forEach f xs st of Inl e \<Rightarrow> Inl e | Inr st' \<Rightarrow> forEach f ys st')"
  by (induction xs arbitrary: st) (auto split: sum.splits)

lemma forEach_invariant_aux:
  assumes step: "\<And>x st st' pre. P st pre \<Longrightarrow> f x st = Inr st' \<Longrightarrow> P st' (pre @ [x])"
  shows "P st pre \<Longrightarrow> forEach f xs st = Inr st' \<Longrightarrow> P st' (pre @ xs)"
proof (induction xs arbitrary: st pre)
  case Nil
  then show ?case by simp
next
  case (Cons x xs)
  from Cons.prems(2) obtain st1 where s1: "f x st = Inr st1" and s2: "forEach f xs st1 = Inr st'"
    by (auto split: sum.splits)
  have "P st1 (pre @ [x])" using step [OF Cons.prems(1) s1] .
  from Cons.IH [OF this s2] show ?case by simp
qed

lemma forEach_invariant:
  assumes "P st0 []"
    and "\<And>x st st' pre. P st pre \<Longrightarrow> f x st = Inr st' \<Longrightarrow> P st' (pre @ [x])"
    and "forEach f xs st0 = Inr st'"
  shows "P st' xs"
  using forEach_invariant_aux [of P f st0 "[]" xs st'] assms by simp

subsection \<open>One call of the callback\<close>

lemma display_window_conv:
  "ge_num (currentHour r) (Some 8) \<and> le_num (currentHour r) (Some 21) \<longleftrightarrow> in_display_window r"
  by (simp add: ge_num_def le_num_def in_display_window_def split: option.splits)

lemma trough_window_conv:
  "ge_num (currentHour r) (Some 10) \<and> lt_num (currentHour r) (Some 18) \<longleftrightarrow> in_trough_window r"
  by (simp add: ge_num_def lt_num_def in_trough_window_def split: option.splits)

lemma aggregate_Inr:
  assumes "aggregate h r st = Inr st'"
  shows "set_latest r (latestEntries st) = Inr (latestEntries st')"
    and "push_timeData h r (timeDataAcc st) = Inr (timeDataAcc st')"
    and "isRideOpen r \<Longrightarrow> set_max r (maxWaitTimes st) = Inr (maxWaitTimes st')"
    and "\<not> isRideOpen r \<Longrightarrow> maxWaitTimes st' = maxWaitTimes st"
    and "isRideOpen r \<and> in_trough_window r \<Longrightarrow> set_min r (minWaitTimes st) = Inr (minWaitTimes st')"
    and "\<not> (isRideOpen r \<and> in_trough_window r) \<Longrightarrow> minWaitTimes st' = minWaitTimes st"
  using assms unfolding aggregate_def trough_window_conv
  by (auto split: sum.splits if_splits)

lemma aggregate_styled_Inr:
  assumes "aggregate_styled h r st = Inr st'"
  shows "set_latest r (latestEntries st) = Inr (latestEntries st')"
    and "push_timeData h r (timeDataAcc st) = Inr (timeDataAcc st')"
    and "isRideOpen r \<Longrightarrow> set_max_styled r (maxWaitTimes st) = Inr (maxWaitTimes st')"
    and "\<not> isRideOpen r \<Longrightarrow> maxWaitTimes st' = maxWaitTimes st"
    and "isRideOpen r \<and> in_trough_window r
           \<Longrightarrow> set_min_styled r (minWaitTimes st) = Inr (minWaitTimes st')"
    and "\<not> (isRideOpen r \<and> in_trough_window r) \<Longrightarrow> minWaitTimes st' = minWaitTimes st"
  using assms unfolding aggregate_styled_def trough_window_conv
  by (auto split: sum.splits if_splits)

lemma ride_readings_snoc:
  "ride_readings k (rs @ [r]) = (if rideKey r = k then ride_readings k rs @ [r] else ride_readings k rs)"
  by (simp add: ride_readings_def)

lemma ride_readings_member: "x \<in> set (ride_readings k rs) \<Longrightarrow> rideKey x = k \<and> x \<in> set rs"
  by (simp add: ride_readings_def)

lemma open_readings_snoc:
  "open_readings k (rs @ [r]) =
     (if rideKey r = k \<and> isRideOpen r then open_readings k rs @ [r] else open_readings k rs)"
  by (simp add: open_readings_def ride_readings_snoc)

lemma trough_readings_snoc:
  "trough_readings k (rs @ [r]) =
     (if rideKey r = k \<and> isRideOpen r \<and> in_trough_window r then trough_readings k rs @ [r]
      else trough_readings k rs)"
  by (simp add: trough_readings_def ride_readings_snoc)

lemma display_points_snoc:
  "display_points h k (rs @ [r]) =
     (if rideKey r = k \<and> in_display_window r then display_points h k rs @ [series_point h r]
      else display_points h k rs)"
  by (simp add: display_points_def ride_readings_snoc)

lemma table_invI:
  assumes "distinct (map fst al)" and "\<And>k. map_of al k = spec k"
    and "\<And>k. present k \<Longrightarrow> map_of al k \<noteq> None"
  shows "table_inv al spec present"
  using assms unfolding table_inv_def by blast

lemma table_invD:
  assumes "table_inv al spec present"
  shows "distinct (map fst al)" and "map_of al k = spec k"
    and "present k \<Longrightarrow> map_of al k \<noteq> None"
  using assms unfolding table_inv_def by blast+

lemma table_inv_update:
  assumes inv: "table_inv al spec present"
    and new: "spec' k0 = Some e"
    and others: "\<And>k. k \<noteq> k0 \<Longrightarrow> spec' k = spec k \<and> (present' k \<longrightarrow> present k)"
  shows "table_inv (AList.update k0 e al) spec' present'"
proof (rule table_invI)
  show "distinct (map fst (AList.update k0 e al))"
    using table_invD(1) [OF inv] by (rule AList.distinct_update)
next
  fix k
  show "map_of (AList.update k0 e al) k = spec' k"
    using new others [of k] table_invD(2) [OF inv, of k]
    by (cases "k = k0") (simp_all add: AList.update_conv')
next
  fix k
  assume "present' k"
  then show "map_of (AList.update k0 e al) k \<noteq> None"
    using others [of k] table_invD(3) [OF inv, of k]
    by (cases "k = k0") (simp_all add: AList.update_conv')
qed

lemma table_inv_keep:
  assumes inv: "table_inv al spec present"
    and same: "\<And>k. spec' k = spec k"
    and pres: "\<And>k. present' k \<Longrightarrow> present k \<or> map_of al k \<noteq> None"
  shows "table_inv al spec' present'"
proof (rule table_invI)
  show "distinct (map fst al)" using table_invD(1) [OF inv] .
next
  fix k
  show "map_of al k = spec' k" using same [of k] table_invD(2) [OF inv, of k] by simp
next
  fix k
  assume "present' k"
  then show "map_of al k \<noteq> None"
    using pres [of k] table_invD(3) [OF inv, of k] by blast
qed

lemma get_cases:
  "get al k = (case map_of al k of Some v \<Rightarrow> Own v
               | None \<Rightarrow> if ordinary k then Undefined else Other True)"
  by (simp add: get_def ordinary_def split: option.splits)

lemma dict_get_plain: "prototype d = None \<Longrightarrow> dict_get d k = get (props d) k"
  by (simp add: dict_get_def get_def split: option.splits)

lemma dict_put_ordinary:
  "ordinary k \<Longrightarrow> dict_put d k e = d\<lparr>props := AList.update k e (props d)\<rparr>"
  by (auto simp: dict_put_def ordinary_def Object_prototype_names_def)

lemma latest_spec_other: "k \<noteq> rideKey r \<Longrightarrow> latest_spec k (rs @ [r]) = latest_spec k rs"
  by (simp add: latest_spec_def ride_readings_snoc)

lemma peak_spec_other:
  "k \<noteq> rideKey r \<or> \<not> isRideOpen r \<Longrightarrow> peak_spec k (rs @ [r]) = peak_spec k rs"
  by (auto simp: peak_spec_def open_readings_snoc)

lemma trough_spec_other:
  "k \<noteq> rideKey r \<or> \<not> (isRideOpen r \<and> in_trough_window r)
   \<Longrightarrow> trough_spec k (rs @ [r]) = trough_spec k rs"
  by (auto simp: trough_spec_def trough_readings_snoc)

lemma series_spec_other: "k \<noteq> rideKey r \<Longrightarrow> series_spec h k (rs @ [r]) = series_spec h k rs"
  by (simp add: series_spec_def ride_readings_snoc display_points_snoc)

lemma latest_inv_step:
  assumes inv: "latest_inv les rs" and ok: "set_latest r les = Inr les'"
  shows "latest_inv les' (rs @ [r])"
proof -
  let ?k0 = "rideKey r"
  note inv' = inv [unfolded latest_inv_def]
  have others: "\<And>k. k \<noteq> ?k0 \<Longrightarrow> latest_spec k (rs @ [r]) = latest_spec k rs
        \<and> (ordinary k \<and> ride_readings k (rs @ [r]) \<noteq> [] \<longrightarrow> ordinary k \<and> ride_readings k rs \<noteq> [])"
    by (simp add: latest_spec_other ride_readings_snoc)
  show ?thesis
  proof (cases "ordinary ?k0")
    case False
    have none: "map_of les ?k0 = None"
      using table_invD(2) [OF inv', of ?k0] False by (simp add: latest_spec_def)
    from ok none False have l': "les' = les"
      by (simp add: set_latest_def get_cases truthy_def read_prop_def gt_num_def
            split: option.splits)
    have "table_inv les (\<lambda>k. latest_spec k (rs @ [r]))
            (\<lambda>k. ordinary k \<and> ride_readings k (rs @ [r]) \<noteq> [])"
    proof (rule table_inv_keep [OF inv'])
      fix k show "latest_spec k (rs @ [r]) = latest_spec k rs"
        using False others [of k] by (cases "k = ?k0") (simp_all add: latest_spec_def)
    next
      fix k assume "ordinary k \<and> ride_readings k (rs @ [r]) \<noteq> []"
      then show "(ordinary k \<and> ride_readings k rs \<noteq> []) \<or> map_of les k \<noteq> None"
        using False others [of k] by (cases "k = ?k0") auto
    qed
    then show ?thesis unfolding l' latest_inv_def .
  next
    case ord: True
    show ?thesis
    proof (cases "map_of les ?k0")
      case None
      then have e: "ride_readings ?k0 rs = []"
        using table_invD(3) [OF inv', of ?k0] ord by blast
      from ok None ord obtain t where t: "currentDate r = Some t"
        and l': "les' = AList.update ?k0 \<lparr>ride_name = ?k0, wait_time = numericWaitTime r,
                   last_update = lastUpdate r, is_open = isRideOpen r, timestamp = t\<rparr> les"
        by (auto simp: set_latest_def get_cases truthy_def toISOString_def split: option.splits)
      have "latest_spec ?k0 (rs @ [r]) = latest_entry r"
        using ord by (simp add: latest_spec_def ride_readings_snoc e first_with_max_single)
      then have "latest_spec ?k0 (rs @ [r]) = Some \<lparr>ride_name = ?k0,
                   wait_time = numericWaitTime r, last_update = lastUpdate r,
                   is_open = isRideOpen r, timestamp = t\<rparr>"
        using t by (simp add: latest_entry_def)
      from table_inv_update [OF inv', of "\<lambda>k. latest_spec k (rs @ [r])", OF this others]
      show ?thesis unfolding l' latest_inv_def by simp
    next
      case (Some e)
      then have "latest_spec ?k0 rs = Some e" using table_invD(2) [OF inv', of ?k0] by simp
      then obtain x t0 where x: "first_with_max currentDate (ride_readings ?k0 rs) = Some x"
        and xt: "currentDate x = Some t0" and et: "timestamp e = t0"
        using ord by (auto simp: latest_spec_def latest_entry_def Option.bind_eq_Some_conv)
      show ?thesis
      proof (cases "gt_num (currentDate r) (Some t0)")
        case True
        then obtain t where t: "currentDate r = Some t" and gt: "t0 < t"
          by (auto simp: gt_num_def split: option.splits)
        from ok Some True et t
        have l': "les' = AList.update ?k0 \<lparr>ride_name = ?k0, wait_time = numericWaitTime r,
                   last_update = lastUpdate r, is_open = isRideOpen r, timestamp = t\<rparr> les"
          by (auto simp: set_latest_def get_cases truthy_def read_prop_def toISOString_def)
        have "currentDate x < currentDate r" using xt t gt by simp
        from first_with_max_snoc_gt [OF x this]
        have "latest_spec ?k0 (rs @ [r]) = latest_entry r"
          using ord by (simp add: latest_spec_def ride_readings_snoc)
        then have "latest_spec ?k0 (rs @ [r]) = Some \<lparr>ride_name = ?k0,
                   wait_time = numericWaitTime r, last_update = lastUpdate r,
                   is_open = isRideOpen r, timestamp = t\<rparr>"
          using t by (simp add: latest_entry_def)
        from table_inv_update [OF inv', of "\<lambda>k. latest_spec k (rs @ [r])", OF this others]
        show ?thesis unfolding l' latest_inv_def by simp
      next
        case False
        from ok Some False et have l': "les' = les"
          by (auto simp: set_latest_def get_cases truthy_def read_prop_def)
        have "currentDate r \<le> currentDate x"
          using False xt by (cases "currentDate r") (auto simp: gt_num_def)
        from first_with_max_snoc_le [OF x this]
        have same: "latest_spec ?k0 (rs @ [r]) = latest_spec ?k0 rs"
          using x ord by (simp add: latest_spec_def ride_readings_snoc)
        have "table_inv les (\<lambda>k. latest_spec k (rs @ [r]))
                (\<lambda>k. ordinary k \<and> ride_readings k (rs @ [r]) \<noteq> [])"
        proof (rule table_inv_keep [OF inv'])
          fix k show "latest_spec k (rs @ [r]) = latest_spec k rs"
            using same others [of k] by (cases "k = ?k0") simp_all
        next
          fix k assume "ordinary k \<and> ride_readings k (rs @ [r]) \<noteq> []"
          then show "(ordinary k \<and> ride_readings k rs \<noteq> []) \<or> map_of les k \<noteq> None"
            using Some others [of k] by (cases "k = ?k0") simp_all
        qed
        then show ?thesis unfolding l' latest_inv_def .
      qed
    qed
  qed
qed

lemma peak_inv_closed:
  assumes inv: "peak_inv mx rs" and cl: "\<not> isRideOpen r"
  shows "peak_inv mx (rs @ [r])"
  using inv cl unfolding peak_inv_def
  by (simp add: peak_spec_other open_readings_snoc)

lemma peak_inv_step:
  assumes inv: "peak_inv mx rs" and op: "isRideOpen r" and ok: "set_max r mx = Inr mx'"
  shows "peak_inv mx' (rs @ [r])"
proof -
  let ?k0 = "rideKey r"
  from inv have proto: "prototype mx = None"
    and inv': "table_inv (props mx) (\<lambda>k. peak_spec k rs) (\<lambda>k. ordinary k \<and> open_readings k rs \<noteq> [])"
    unfolding peak_inv_def by simp_all
  note g = dict_get_plain [OF proto] get_cases
  have others: "\<And>k. k \<noteq> ?k0 \<Longrightarrow> peak_spec k (rs @ [r]) = peak_spec k rs
        \<and> (ordinary k \<and> open_readings k (rs @ [r]) \<noteq> [] \<longrightarrow> ordinary k \<and> open_readings k rs \<noteq> [])"
    by (simp add: peak_spec_other open_readings_snoc)
  show ?thesis
  proof (cases "ordinary ?k0")
    case False
    have none: "map_of (props mx) ?k0 = None"
      using table_invD(2) [OF inv', of ?k0] False by (simp add: peak_spec_def)
    from ok none False have l': "mx' = mx"
      by (simp add: set_max_def g truthy_def read_prop_def gt_num_def)
    have "table_inv (props mx) (\<lambda>k. peak_spec k (rs @ [r]))
            (\<lambda>k. ordinary k \<and> open_readings k (rs @ [r]) \<noteq> [])"
    proof (rule table_inv_keep [OF inv'])
      fix k show "peak_spec k (rs @ [r]) = peak_spec k rs"
        using False others [of k] by (cases "k = ?k0") (simp_all add: peak_spec_def)
    next
      fix k assume "ordinary k \<and> open_readings k (rs @ [r]) \<noteq> []"
      then show "(ordinary k \<and> open_readings k rs \<noteq> []) \<or> map_of (props mx) k \<noteq> None"
        using False others [of k] by (cases "k = ?k0") auto
    qed
    then show ?thesis unfolding l' peak_inv_def using proto by simp
  next
    case ord: True
    show ?thesis
    proof (cases "map_of (props mx) ?k0")
      case None
      then have e: "open_readings ?k0 rs = []"
        using table_invD(3) [OF inv', of ?k0] ord by blast
      from ok None ord obtain t where t: "currentDate r = Some t"
        and l': "mx' = mx\<lparr>props := AList.update ?k0 \<lparr>mm_ride_name = ?k0,
                   max_wait_time = Some (numericWaitTime r),
                   min_wait_time = None, mm_timestamp = t\<rparr> (props mx)\<rparr>"
        by (auto simp: set_max_def store_max_def g truthy_def dict_put_ordinary toISOString_def
              split: option.splits)
      have "peak_spec ?k0 (rs @ [r]) = peak_entry r"
        using op ord by (simp add: peak_spec_def open_readings_snoc e first_with_max_single)
      then have "peak_spec ?k0 (rs @ [r]) = Some \<lparr>mm_ride_name = ?k0,
                   max_wait_time = Some (numericWaitTime r), min_wait_time = None, mm_timestamp = t\<rparr>"
        using t by (simp add: peak_entry_def)
      from table_inv_update [OF inv', of "\<lambda>k. peak_spec k (rs @ [r])", OF this others]
      show ?thesis unfolding l' peak_inv_def using proto by simp
    next
      case (Some e)
      then have "peak_spec ?k0 rs = Some e" using table_invD(2) [OF inv', of ?k0] by simp
      then obtain x where x: "first_with_max numericWaitTime (open_readings ?k0 rs) = Some x"
        and em: "max_wait_time e = Some (numericWaitTime x)"
        using ord by (auto simp: peak_spec_def peak_entry_def Option.bind_eq_Some_conv)
      show ?thesis
      proof (cases "numericWaitTime r > numericWaitTime x")
        case True
        from ok Some True em ord obtain t where t: "currentDate r = Some t"
          and l': "mx' = mx\<lparr>props := AList.update ?k0 \<lparr>mm_ride_name = ?k0,
                   max_wait_time = Some (numericWaitTime r),
                   min_wait_time = None, mm_timestamp = t\<rparr> (props mx)\<rparr>"
          by (auto simp: set_max_def store_max_def g truthy_def read_prop_def dict_put_ordinary
                gt_num_def toISOString_def split: option.splits)
        from first_with_max_snoc_gt [OF x True]
        have "peak_spec ?k0 (rs @ [r]) = peak_entry r"
          using op ord by (simp add: peak_spec_def open_readings_snoc)
        then have "peak_spec ?k0 (rs @ [r]) = Some \<lparr>mm_ride_name = ?k0,
                   max_wait_time = Some (numericWaitTime r), min_wait_time = None, mm_timestamp = t\<rparr>"
          using t by (simp add: peak_entry_def)
        from table_inv_update [OF inv', of "\<lambda>k. peak_spec k (rs @ [r])", OF this others]
        show ?thesis unfolding l' peak_inv_def using proto by simp
      next
        case False
        from ok Some False em have l': "mx' = mx"
          by (auto simp: set_max_def g truthy_def read_prop_def gt_num_def)
        have "numericWaitTime r \<le> numericWaitTime x" using False by simp
        from first_with_max_snoc_le [OF x this]
        have same: "peak_spec ?k0 (rs @ [r]) = peak_spec ?k0 rs"
          using x op ord by (simp add: peak_spec_def open_readings_snoc)
        have "table_inv (props mx) (\<lambda>k. peak_spec k (rs @ [r]))
                (\<lambda>k. ordinary k \<and> open_readings k (rs @ [r]) \<noteq> [])"
        proof (rule table_inv_keep [OF inv'])
          fix k show "peak_spec k (rs @ [r]) = peak_spec k rs"
            using same others [of k] by (cases "k = ?k0") simp_all
        next
          fix k assume "ordinary k \<and> open_readings k (rs @ [r]) \<noteq> []"
          then show "(ordinary k \<and> open_readings k rs \<noteq> []) \<or> map_of (props mx) k \<noteq> None"
            using Some others [of k] by (cases "k = ?k0") simp_all
        qed
        then show ?thesis unfolding l' peak_inv_def using proto by simp
      qed
    qed
  qed
qed

lemma trough_inv_outside:
  assumes inv: "trough_inv mn rs" and cl: "\<not> (isRideOpen r \<and> in_trough_window r)"
  shows "trough_inv mn (rs @ [r])"
proof -
  have "\<And>k. trough_readings k (rs @ [r]) = trough_readings k rs"
    using cl by (auto simp: trough_readings_snoc)
  then show ?thesis
    using inv cl unfolding trough_inv_def by (simp add: trough_spec_other)
qed

lemma trough_inv_step:
  assumes inv: "trough_inv mn rs" and op: "isRideOpen r \<and> in_trough_window r"
    and ok: "set_min r mn = Inr mn'"
  shows "trough_inv mn' (rs @ [r])"
proof -
  let ?k0 = "rideKey r"
  from inv have proto: "prototype mn = None"
    and inv': "table_inv (props mn) (\<lambda>k. trough_spec k rs)
                 (\<lambda>k. ordinary k \<and> trough_readings k rs \<noteq> [])"
    unfolding trough_inv_def by simp_all
  note g = dict_get_plain [OF proto] get_cases
  have others: "\<And>k. k \<noteq> ?k0 \<Longrightarrow> trough_spec k (rs @ [r]) = trough_spec k rs
        \<and> (ordinary k \<and> trough_readings k (rs @ [r]) \<noteq> []
             \<longrightarrow> ordinary k \<and> trough_readings k rs \<noteq> [])"
    by (simp add: trough_spec_other trough_readings_snoc)
  show ?thesis
  proof (cases "ordinary ?k0")
    case False
    have none: "map_of (props mn) ?k0 = None"
      using table_invD(2) [OF inv', of ?k0] False by (simp add: trough_spec_def)
    from ok none False have l': "mn' = mn"
      by (simp add: set_min_def g truthy_def read_prop_def lt_num_def)
    have "table_inv (props mn) (\<lambda>k. trough_spec k (rs @ [r]))
            (\<lambda>k. ordinary k \<and> trough_readings k (rs @ [r]) \<noteq> [])"
    proof (rule table_inv_keep [OF inv'])
      fix k show "trough_spec k (rs @ [r]) = trough_spec k rs"
        using False others [of k] by (cases "k = ?k0") (simp_all add: trough_spec_def)
    next
      fix k assume "ordinary k \<and> trough_readings k (rs @ [r]) \<noteq> []"
      then show "(ordinary k \<and> trough_readings k rs \<noteq> []) \<or> map_of (props mn) k \<noteq> None"
        using False others [of k] by (cases "k = ?k0") auto
    qed
    then show ?thesis unfolding l' trough_inv_def using proto by simp
  next
    case ord: True
    show ?thesis
    proof (cases "map_of (props mn) ?k0")
      case None
      then have e: "trough_readings ?k0 rs = []"
        using table_invD(3) [OF inv', of ?k0] ord by blast
      from ok None ord obtain t where t: "currentDate r = Some t"
        and l': "mn' = mn\<lparr>props := AList.update ?k0 \<lparr>mm_ride_name = ?k0, max_wait_time = None,
                   min_wait_time = Some (numericWaitTime r), mm_timestamp = t\<rparr> (props mn)\<rparr>"
        by (auto simp: set_min_def store_min_def g truthy_def dict_put_ordinary toISOString_def
              split: option.splits)
      have "trough_spec ?k0 (rs @ [r]) = trough_entry r"
        using op ord by (simp add: trough_spec_def trough_readings_snoc e first_with_min_single)
      then have "trough_spec ?k0 (rs @ [r]) = Some \<lparr>mm_ride_name = ?k0, max_wait_time = None,
                   min_wait_time = Some (numericWaitTime r), mm_timestamp = t\<rparr>"
        using t by (simp add: trough_entry_def)
      from table_inv_update [OF inv', of "\<lambda>k. trough_spec k (rs @ [r])", OF this others]
      show ?thesis unfolding l' trough_inv_def using proto by simp
    next
      case (Some e)
      then have "trough_spec ?k0 rs = Some e" using table_invD(2) [OF inv', of ?k0] by simp
      then obtain x where x: "first_with_min numericWaitTime (trough_readings ?k0 rs) = Some x"
        and em: "min_wait_time e = Some (numericWaitTime x)"
        using ord by (auto simp: trough_spec_def trough_entry_def Option.bind_eq_Some_conv)
      show ?thesis
      proof (cases "numericWaitTime r < numericWaitTime x")
        case True
        from ok Some True em ord obtain t where t: "currentDate r = Some t"
          and l': "mn' = mn\<lparr>props := AList.update ?k0 \<lparr>mm_ride_name = ?k0, max_wait_time = None,
                   min_wait_time = Some (numericWaitTime r), mm_timestamp = t\<rparr> (props mn)\<rparr>"
          by (auto simp: set_min_def store_min_def g truthy_def read_prop_def dict_put_ordinary
                lt_num_def toISOString_def split: option.splits)
        from first_with_min_snoc_lt [OF x True]
        have "trough_spec ?k0 (rs @ [r]) = trough_entry r"
          using op ord by (simp add: trough_spec_def trough_readings_snoc)
        then have "trough_spec ?k0 (rs @ [r]) = Some \<lparr>mm_ride_name = ?k0, max_wait_time = None,
                   min_wait_time = Some (numericWaitTime r), mm_timestamp = t\<rparr>"
          using t by (simp add: trough_entry_def)
        from table_inv_update [OF inv', of "\<lambda>k. trough_spec k (rs @ [r])", OF this others]
        show ?thesis unfolding l' trough_inv_def using proto by simp
      next
        case False
        from ok Some False em have l': "mn' = mn"
          by (auto simp: set_min_def g truthy_def read_prop_def lt_num_def)
        have "numericWaitTime x \<le> numericWaitTime r" using False by simp
        from first_with_min_snoc_ge [OF x this]
        have same: "trough_spec ?k0 (rs @ [r]) = trough_spec ?k0 rs"
          using x op ord by (simp add: trough_spec_def trough_readings_snoc)
        have "table_inv (props mn) (\<lambda>k. trough_spec k (rs @ [r]))
                (\<lambda>k. ordinary k \<and> trough_readings k (rs @ [r]) \<noteq> [])"
        proof (rule table_inv_keep [OF inv'])
          fix k show "trough_spec k (rs @ [r]) = trough_spec k rs"
            using same others [of k] by (cases "k = ?k0") simp_all
        next
          fix k assume "ordinary k \<and> trough_readings k (rs @ [r]) \<noteq> []"
          then show "(ordinary k \<and> trough_readings k rs \<noteq> []) \<or> map_of (props mn) k \<noteq> None"
            using Some others [of k] by (cases "k = ?k0") simp_all
        qed
        then show ?thesis unfolding l' trough_inv_def using proto by simp
      qed
    qed
  qed
qed

lemma push_timeData_inherited:
  assumes "\<not> ordinary (rideKey r)" and "map_of td (rideKey r) = None"
  shows "push_timeData h r td = (if in_display_window r then Inl TypeError else Inr td)"
  using assms unfolding push_timeData_def Let_def display_window_conv
  by (simp add: get_cases truthy_def)

lemma push_timeData_ordinary:
  assumes ord: "ordinary (rideKey r)"
  shows "\<exists>td'. push_timeData h r td = Inr td'
           \<and> (distinct (map fst td) \<longrightarrow> distinct (map fst td'))
           \<and> map_of td' = (map_of td)(rideKey r \<mapsto>
                 (case map_of td (rideKey r) of None \<Rightarrow> [] | Some xs \<Rightarrow> xs)
                 @ (if in_display_window r
                    then [\<lparr>time = toLocaleTimeString h (currentDate r),
                           waitTime = (if isRideOpen r then Some (numericWaitTime r) else None),
                           isOpen = isRideOpen r\<rparr>]
                    else []))"
  using ord unfolding push_timeData_def Let_def display_window_conv
  by (cases "map_of td (rideKey r)")
     (auto simp: get_cases truthy_def AList.update_conv' AList.distinct_update fun_eq_iff)

lemma series_point_label:
  assumes "reading_wf h r" and "in_display_window r"
  shows "\<lparr>time = toLocaleTimeString h (currentDate r),
          waitTime = (if isRideOpen r then Some (numericWaitTime r) else None),
          isOpen = isRideOpen r\<rparr> = series_point h r"
  using assms
  by (auto simp: reading_wf_def in_display_window_def series_point_def toLocaleTimeString_def
        clock_label_def split: option.splits)

lemma series_inv_step:
  assumes inv: "series_inv h td rs" and ok: "push_timeData h r td = Inr td'"
    and wf: "reading_wf h r"
  shows "series_inv h td' (rs @ [r])"
proof -
  let ?k0 = "rideKey r"
  note inv' = inv [unfolded series_inv_def]
  show ?thesis
  proof (cases "ordinary ?k0")
    case False
    have none: "map_of td ?k0 = None"
      using table_invD(2) [OF inv', of ?k0] False by (simp add: series_spec_def)
    from ok push_timeData_inherited [OF False none, of h] have l': "td' = td"
      by (simp split: if_splits)
    have "table_inv td (\<lambda>k. series_spec h k (rs @ [r]))
            (\<lambda>k. ordinary k \<and> ride_readings k (rs @ [r]) \<noteq> [])"
    proof (rule table_inv_keep [OF inv'])
      fix k show "series_spec h k (rs @ [r]) = series_spec h k rs"
        using False by (cases "k = ?k0") (simp_all add: series_spec_other, simp add: series_spec_def)
    next
      fix k assume "ordinary k \<and> ride_readings k (rs @ [r]) \<noteq> []"
      then show "(ordinary k \<and> ride_readings k rs \<noteq> []) \<or> map_of td k \<noteq> None"
        using False by (cases "k = ?k0") (auto simp: ride_readings_snoc)
    qed
    then show ?thesis unfolding l' series_inv_def .
  next
    case ord: True
    from push_timeData_ordinary [OF ord, of h td] ok
    have d: "distinct (map fst td) \<longrightarrow> distinct (map fst td')"
      and m: "map_of td' = (map_of td)(?k0 \<mapsto>
                 (case map_of td ?k0 of None \<Rightarrow> [] | Some xs \<Rightarrow> xs)
                 @ (if in_display_window r
                    then [\<lparr>time = toLocaleTimeString h (currentDate r),
                           waitTime = (if isRideOpen r then Some (numericWaitTime r) else None),
                           isOpen = isRideOpen r\<rparr>]
                    else []))"
      by auto
    have old: "map_of td ?k0 = series_spec h ?k0 rs" using table_invD(2) [OF inv'] .
    show ?thesis
      unfolding series_inv_def
    proof (rule table_invI)
      show "distinct (map fst td')" using d table_invD(1) [OF inv'] by simp
    next
      fix k
      show "map_of td' k = series_spec h k (rs @ [r])"
      proof (cases "k = ?k0")
        case False
        then show ?thesis
          using table_invD(2) [OF inv', of k] by (simp add: m series_spec_other)
      next
        case True
        show ?thesis
        proof (cases "in_display_window r")
          case w: True
          show ?thesis
            unfolding True m using old ord w series_point_label [OF wf w]
            by (simp add: series_spec_def ride_readings_snoc display_points_snoc
                  display_points_def split: option.splits if_splits)
        next
          case w: False
          show ?thesis
            unfolding True m using old ord w
            by (simp add: series_spec_def ride_readings_snoc display_points_snoc
                  display_points_def split: option.splits if_splits)
        qed
      qed
    next
      fix k
      assume "ordinary k \<and> ride_readings k (rs @ [r]) \<noteq> []"
      then show "map_of td' k \<noteq> None"
        using table_invD(3) [OF inv', of k]
        by (cases "k = ?k0") (auto simp: m ride_readings_snoc)
    qed
  qed
qed

subsection \<open>The dictionaries after the fold\<close>

lemma or_zero_conv: "or_zero x = (case x of None \<Rightarrow> Finite 0 | Some v \<Rightarrow> v)"
  by (simp add: or_zero_def truthy_number_def split: option.splits)

lemma currentDate_plus_hour:
  "currentDate (row_constants h ts a b c d) = adjusted_timestamp h ts"
  by (simp add: row_constants_def adjusted_timestamp_def setHours_def getHours_def Let_def
        split: option.splits)

lemma row_reading_normalize: "row_reading h cells = normalize_row h cells"
proof -
  have "row_constants h ts a b c d =
          \<lparr>numericWaitTime = (case parseInt h b of None \<Rightarrow> Finite 0 | Some v \<Rightarrow> v),
           isRideOpen = (toLowerCase d = ''true''), rideKey = trim a, lastUpdate = c,
           currentDate = adjusted_timestamp h ts,
           currentHour = map_option (local_hour h) (adjusted_timestamp h ts)\<rparr>" for ts a b c d
    using currentDate_plus_hour [of h ts a b c d]
    by (simp add: row_constants_def or_zero_conv getHours_def Let_def)
  then show ?thesis
    by (simp add: row_reading_def normalize_row_def split: list.splits)
qed

lemma normalize_wf:
  assumes "normalize_row h cells = Some r"
  shows "reading_wf h r"
  using assms
  by (auto simp: normalize_row_def reading_wf_def adjusted_timestamp_def time_clip_def
        split: list.splits option.splits if_splits)

lemma row_reading_wf: "row_reading h cells = Some r \<Longrightarrow> reading_wf h r"
  by (simp add: row_reading_normalize normalize_wf)

lemma row_reading_Some_iff: "row_reading h cells \<noteq> None \<longleftrightarrow> 5 \<le> length cells"
  by (auto simp: row_reading_def split: list.splits)

lemma rows_readings_wf: "r \<in> set (rows_readings h rows) \<Longrightarrow> reading_wf h r"
  by (auto simp: rows_readings_def map_filter_def dest: normalize_wf)

lemma readings_wf: "r \<in> set (readings h csvText) \<Longrightarrow> reading_wf h r"
  by (simp add: readings_def rows_readings_wf)

lemma rows_readings_snoc:
  "row_reading h x = Some r \<Longrightarrow> rows_readings h (pre @ [x]) = rows_readings h pre @ [r]"
  by (simp add: rows_readings_def map_filter_def row_reading_normalize)

lemma rows_readings_Nil: "rows_readings h [] = []"
  by (simp add: rows_readings_def map_filter_def)

lemma common_inv_empty: "common_inv h empty_acc []"
  by (simp add: common_inv_def empty_acc_def latest_inv_def series_inv_def
        table_inv_def latest_spec_def series_spec_def ride_readings_def first_with_max_def)

lemma plain_inv_empty: "plain_inv empty_acc []"
  by (simp add: plain_inv_def empty_acc_def empty_dict_def peak_inv_def trough_inv_def
        table_inv_def peak_spec_def trough_spec_def ride_readings_def open_readings_def
        trough_readings_def first_with_max_def first_with_min_def)

lemma aggregate_common_inv:
  assumes inv: "common_inv h st rs" and wf: "reading_wf h r"
    and ok: "aggregate h r st = Inr st' \<or> aggregate_styled h r st = Inr st'"
  shows "common_inv h st' (rs @ [r])"
proof -
  from ok have a: "set_latest r (latestEntries st) = Inr (latestEntries st')"
    "push_timeData h r (timeDataAcc st) = Inr (timeDataAcc st')"
    using aggregate_Inr(1,2) aggregate_styled_Inr(1,2) by blast+
  have "latest_inv (latestEntries st') (rs @ [r])"
    using inv a(1) by (auto simp: common_inv_def intro: latest_inv_step)
  moreover have "series_inv h (timeDataAcc st') (rs @ [r])"
    using inv a(2) wf by (auto simp: common_inv_def intro: series_inv_step)
  moreover have "ordinary (rideKey r) \<or> \<not> in_display_window r"
  proof (cases "ordinary (rideKey r)")
    case False
    from inv have "map_of (timeDataAcc st) (rideKey r) = series_spec h (rideKey r) rs"
      unfolding common_inv_def series_inv_def using table_invD(2) by fastforce
    then have "map_of (timeDataAcc st) (rideKey r) = None"
      using False by (simp add: series_spec_def)
    from push_timeData_inherited [OF False this, of h] a(2) show ?thesis
      by (simp split: if_splits)
  qed simp
  ultimately show ?thesis using inv by (simp add: common_inv_def)
qed

lemma aggregate_plain_inv:
  assumes inv: "plain_inv st rs" and ok: "aggregate h r st = Inr st'"
  shows "plain_inv st' (rs @ [r])"
proof -
  note a = aggregate_Inr [OF ok]
  have "peak_inv (maxWaitTimes st') (rs @ [r])"
  proof (cases "isRideOpen r")
    case True
    then show ?thesis using inv a(3) by (auto simp: plain_inv_def intro: peak_inv_step)
  next
    case False
    then show ?thesis using inv a(4) by (auto simp: plain_inv_def intro: peak_inv_closed)
  qed
  moreover have "trough_inv (minWaitTimes st') (rs @ [r])"
  proof (cases "isRideOpen r \<and> in_trough_window r")
    case True
    then show ?thesis using inv a(5) by (auto simp: plain_inv_def intro: trough_inv_step)
  next
    case False
    then show ?thesis using inv a(6) by (auto simp: plain_inv_def intro: trough_inv_outside)
  qed
  ultimately show ?thesis by (simp add: plain_inv_def)
qed

lemma process_row_Inr:
  assumes "process_row h x st = Inr st'"
  obtains r where "row_reading h x = Some r" and "aggregate h r st = Inr st'"
  using assms by (auto simp: process_row_def split: option.splits)

lemma process_row_styled_Inr:
  assumes "process_row_styled h x st = Inr st'"
  obtains r where "row_reading h x = Some r" and "aggregate_styled h r st = Inr st'"
  using assms by (auto simp: process_row_styled_def split: option.splits)

lemma forEach_common_inv:
  assumes f: "f = process_row h \<or> f = process_row_styled h"
    and ok: "forEach f rows empty_acc = Inr st"
  shows "common_inv h st (rows_readings h rows)"
proof (rule forEach_invariant [where P = "\<lambda>st pre. common_inv h st (rows_readings h pre)", OF _ _ ok])
  show "common_inv h empty_acc (rows_readings h [])"
    by (simp add: rows_readings_Nil common_inv_empty)
next
  fix x st st' pre
  assume inv: "common_inv h st (rows_readings h pre)" and s: "f x st = Inr st'"
  from f s obtain r where r: "row_reading h x = Some r"
    "aggregate h r st = Inr st' \<or> aggregate_styled h r st = Inr st'"
    by (auto elim: process_row_Inr process_row_styled_Inr)
  then show "common_inv h st' (rows_readings h (pre @ [x]))"
    using aggregate_common_inv [OF inv row_reading_wf [OF r(1)] r(2)]
    by (simp add: rows_readings_snoc)
qed

lemma forEach_plain_inv:
  assumes ok: "forEach (process_row h) rows empty_acc = Inr st"
  shows "plain_inv st (rows_readings h rows)"
proof (rule forEach_invariant [where P = "\<lambda>st pre. plain_inv st (rows_readings h pre)", OF _ _ ok])
  show "plain_inv empty_acc (rows_readings h [])"
    by (simp add: rows_readings_Nil plain_inv_empty)
next
  fix x st st' pre
  assume inv: "plain_inv st (rows_readings h pre)"
    and s: "process_row h x st = Inr st'"
  from s obtain r where r: "row_reading h x = Some r" "aggregate h r st = Inr st'"
    by (auto elim: process_row_Inr)
  then show "plain_inv st' (rows_readings h (pre @ [x]))"
    using aggregate_plain_inv [OF inv r(2)] by (simp add: rows_readings_snoc)
qed

lemma forEach_all_read:
  assumes f: "f = process_row h \<or> f = process_row_styled h"
  shows "forEach f rows st = Inr st' \<Longrightarrow> \<forall>x \<in> set rows. row_reading h x \<noteq> None"
proof (induction rows arbitrary: st)
  case Nil
  then show ?case by simp
next
  case (Cons x rows)
  from Cons.prems obtain st1 where s: "f x st = Inr st1" "forEach f rows st1 = Inr st'"
    by (auto split: sum.splits)
  have "row_reading h x \<noteq> None"
    using f s(1) by (auto simp: process_row_def process_row_styled_def split: option.splits)
  then show ?case using Cons.IH [OF s(2)] by simp
qed

lemma rows_readings_all:
  "\<forall>x \<in> set rows. row_reading h x \<noteq> None \<Longrightarrow> map (row_reading h) rows = map Some (rows_readings h rows)"
  by (induction rows) (auto simp: rows_readings_def map_filter_def row_reading_normalize)

subsection \<open>The assembled result\<close>

lemma mset_own_properties: "mset (own_properties al) = mset al"
  by (simp add: own_properties_def)

lemma set_own_properties: "set (own_properties al) = set al"
  using mset_own_properties [of al] by (metis set_mset_mset)

lemma distinct_own_properties:
  "distinct (map fst al) \<Longrightarrow> distinct (map fst (own_properties al))"
proof -
  have "mset (map fst (own_properties al)) = mset (map fst al)"
    using mset_own_properties [of al] by (metis mset_map)
  then show "distinct (map fst al) \<Longrightarrow> distinct (map fst (own_properties al))"
    using mset_eq_imp_distinct_iff by blast
qed

lemma map_of_own_properties:
  assumes "distinct (map fst al)"
  shows "map_of (own_properties al) = map_of al"
  using map_of_inject_set [OF distinct_own_properties [OF assms] assms]
  by (simp add: set_own_properties)

lemma table_inv_own_properties:
  assumes "table_inv al spec present"
  shows "table_inv (own_properties al) spec present"
proof (rule table_invI)
  show "distinct (map fst (own_properties al))"
    using table_invD(1) [OF assms] by (rule distinct_own_properties)
next
  fix k show "map_of (own_properties al) k = spec k"
    using table_invD(2) [OF assms, of k] map_of_own_properties [OF table_invD(1) [OF assms]]
    by simp
next
  fix k assume "present k"
  then show "map_of (own_properties al) k \<noteq> None"
    using table_invD(3) [OF assms, of k] map_of_own_properties [OF table_invD(1) [OF assms]]
    by simp
qed

lemma mset_Object_values: "mset (Object_values al) = mset (map snd al)"
  unfolding Object_values_def using mset_own_properties [of al] by (metis mset_map)

lemma assemble_Inr:
  assumes "assemble h st = Inr out"
  shows "currentData out = Object_values (latestEntries st)"
    and "maxData out = Object_values (props (maxWaitTimes st))"
    and "minData out = Object_values (props (minWaitTimes st))"
    and "timeData out = own_properties (sort_timeData h (timeDataAcc st))"
    and "latestTimestamp out =
           (if reduce_max (Object_values (latestEntries st)) = 0 then None
            else Some (reduce_max (Object_values (latestEntries st))))"
  using assms unfolding assemble_def Let_def
  by (auto simp: toISOString_def time_clip_def reduce_max_def split: if_splits option.splits sum.splits)

lemma impl_Inr:
  assumes "impl = processCSVData \<or> impl = processCSVData_styled"
    and "impl h csvText = Inr out"
  shows "\<exists>f st. (f = process_row h \<or> f = process_row_styled h)
           \<and> forEach f (data_rows csvText) empty_acc = Inr st \<and> assemble h st = Inr out"
  using assms(1)
proof
  assume "impl = processCSVData"
  with assms(2) obtain st where "forEach (process_row h) (data_rows csvText) empty_acc = Inr st"
    "assemble h st = Inr out"
    by (auto simp: processCSVData_def split: sum.splits)
  then show ?thesis by blast
next
  assume "impl = processCSVData_styled"
  with assms(2) obtain st where "forEach (process_row_styled h) (data_rows csvText) empty_acc = Inr st"
    "assemble h st = Inr out"
    by (auto simp: processCSVData_styled_def split: sum.splits)
  then show ?thesis by blast
qed

lemma values_filter_alist:
  assumes inv: "table_inv al spec present"
    and nm: "\<And>k e. spec k = Some e \<Longrightarrow> name e = k"
  shows "filter (\<lambda>e. name e = k) (map snd al) = (case spec k of None \<Rightarrow> [] | Some e \<Rightarrow> [e])"
proof -
  have d: "distinct (map fst al)" using table_invD(1) [OF inv] .
  have n: "\<And>k e. map_of al k = Some e \<Longrightarrow> name e = k"
    using nm table_invD(2) [OF inv] by simp
  have "filter (\<lambda>e. name e = k) (map snd al) = (case map_of al k of None \<Rightarrow> [] | Some e \<Rightarrow> [e])"
    using d n
  proof (induction al)
    case Nil
    then show ?case by simp
  next
    case (Cons p al)
    obtain k' e' where p: "p = (k', e')" by (cases p)
    have notin: "map_of al k' = None"
      using Cons.prems(1) by (simp add: p map_of_eq_None_iff)
    have d': "distinct (map fst al)" using Cons.prems(1) by simp
    have n': "\<And>k e. map_of al k = Some e \<Longrightarrow> name e = k"
    proof -
      fix k e assume a: "map_of al k = Some e"
      then have "k \<noteq> k'" using notin by auto
      then have "map_of (p # al) k = Some e" using a by (simp add: p)
      then show "name e = k" by (rule Cons.prems(2))
    qed
    have e': "name e' = k'" using Cons.prems(2) [of k' e'] by (simp add: p)
    show ?case
      using Cons.IH [OF d' n'] e' notin by (auto simp: p)
  qed
  then show ?thesis using table_invD(2) [OF inv, of k] by simp
qed

lemma values_filter:
  assumes inv: "table_inv al spec present"
    and nm: "\<And>k e. spec k = Some e \<Longrightarrow> name e = k"
  shows "filter (\<lambda>e. name e = k) (Object_values al) = (case spec k of None \<Rightarrow> [] | Some e \<Rightarrow> [e])"
  unfolding Object_values_def
  using values_filter_alist [OF table_inv_own_properties [OF inv] nm] by simp

lemma values_names:
  assumes inv: "table_inv al spec present"
    and nm: "\<And>k e. spec k = Some e \<Longrightarrow> name e = k"
  shows "set (map name (Object_values al)) = set (map fst al)"
proof -
  have "\<And>k e. (k, e) \<in> set al \<Longrightarrow> name e = k"
    using nm table_invD(2) [OF inv] table_invD(1) [OF inv] by (metis map_of_is_SomeI)
  then have "map name (map snd al) = map fst al" by (induction al) auto
  moreover have "set (Object_values al) = set (map snd al)"
    using mset_Object_values [of al] by (metis set_mset_mset)
  ultimately show ?thesis by (metis set_map)
qed

lemma table_keys:
  assumes inv: "table_inv al spec present"
  shows "set (map fst al) = {k. spec k \<noteq> None}"
proof -
  have "set (map fst al) = dom (map_of al)" by (simp add: dom_map_of_conv_image_fst)
  also have "\<dots> = {k. spec k \<noteq> None}"
    using table_invD(2) [OF inv] by (auto simp: dom_def)
  finally show ?thesis .
qed

lemma latest_spec_name: "latest_spec k rs = Some e \<Longrightarrow> ride_name e = k"
  by (auto simp: latest_spec_def latest_entry_def Option.bind_eq_Some_conv
        split: if_splits dest!: first_with_max_Some(1) ride_readings_member)

lemma peak_spec_name: "peak_spec k rs = Some e \<Longrightarrow> mm_ride_name e = k"
  by (auto simp: peak_spec_def peak_entry_def open_readings_def Option.bind_eq_Some_conv
        split: if_splits dest!: first_with_max_Some(1) ride_readings_member)

lemma trough_spec_name: "trough_spec k rs = Some e \<Longrightarrow> mm_ride_name e = k"
  by (auto simp: trough_spec_def trough_entry_def trough_readings_def Option.bind_eq_Some_conv
        split: if_splits dest!: first_with_min_Some(1) ride_readings_member)

lemma impl_common_inv:
  assumes "impl = processCSVData \<or> impl = processCSVData_styled"
    and "impl h csvText = Inr out"
  shows "\<exists>st. common_inv h st (readings h csvText) \<and> assemble h st = Inr out
           \<and> (\<forall>x \<in> set (data_rows csvText). row_reading h x \<noteq> None)"
proof -
  from impl_Inr [OF assms] obtain f st where f: "f = process_row h \<or> f = process_row_styled h"
    and fe: "forEach f (data_rows csvText) empty_acc = Inr st" and a: "assemble h st = Inr out"
    by blast
  show ?thesis
    using forEach_common_inv [OF f fe] forEach_all_read [OF f fe] a
    by (auto simp: readings_def)
qed

lemma plain_Inr:
  assumes "processCSVData h csvText = Inr out"
  shows "\<exists>st. common_inv h st (readings h csvText) \<and> plain_inv st (readings h csvText)
           \<and> assemble h st = Inr out"
proof -
  from assms obtain st where fe: "forEach (process_row h) (data_rows csvText) empty_acc = Inr st"
    and a: "assemble h st = Inr out"
    by (auto simp: processCSVData_def split: sum.splits)
  show ?thesis
    using forEach_common_inv [of "process_row h" h, OF _ fe] forEach_plain_inv [OF fe] a
    by (auto simp: readings_def)
qed

subsection \<open>Sorting the series\<close>

lemma map_of_sort_timeData:
  "map_of (sort_timeData h td) k = map_option (array_sort (compare_time h)) (map_of td k)"
  by (induction td) (auto simp: sort_timeData_def)

lemma keys_sort_timeData: "map fst (sort_timeData h td) = map fst td"
  by (induction td) (auto simp: sort_timeData_def)

lemma array_sort_Nil: "array_sort cmp [] = []"
  by (simp add: array_sort_def)



lemma series_of_result:
  assumes inv: "common_inv h st rs" and a: "assemble h st = Inr out"
  shows "series_of out k =
           (case series_spec h k rs of None \<Rightarrow> []
            | Some s \<Rightarrow> array_sort (compare_time h) s)"
    and "map_of (timeData out) k = map_option (array_sort (compare_time h)) (series_spec h k rs)"
proof -
  from inv have si: "table_inv (timeDataAcc st) (\<lambda>k. series_spec h k rs)
                       (\<lambda>k. ordinary k \<and> ride_readings k rs \<noteq> [])"
    by (simp add: common_inv_def series_inv_def)
  have d: "distinct (map fst (sort_timeData h (timeDataAcc st)))"
    using table_invD(1) [OF si] by (simp add: keys_sort_timeData)
  show m: "map_of (timeData out) k = map_option (array_sort (compare_time h)) (series_spec h k rs)"
    using table_invD(2) [OF si, of k]
    by (simp add: assemble_Inr(4) [OF a] map_of_own_properties [OF d] map_of_sort_timeData)
  show "series_of out k =
           (case series_spec h k rs of None \<Rightarrow> []
            | Some s \<Rightarrow> array_sort (compare_time h) s)"
    unfolding series_of_def m by (simp split: option.splits)
qed



lemma returns_InrE:
  assumes "\<not> isl v"
  obtains out where "v = Inr out"
  using assms by (cases v) auto

subsection \<open>The reduction to the latest timestamp\<close>

lemma foldl_max_eq_Max:
  "foldl (\<lambda>m entry. max m (timestamp entry)) m es = Max (insert m (set (map timestamp es)))"
proof (induction es arbitrary: m)
  case Nil
  then show ?case by simp
next
  case (Cons e es)
  have "Max (insert (max m (timestamp e)) (set (map timestamp es)))
          = Max (insert m (insert (timestamp e) (set (map timestamp es))))"
    by (cases "set (map timestamp es) = {}") (simp_all add: max.assoc)
  then show ?case using Cons.IH [of "max m (timestamp e)"] by simp
qed

subsection \<open>Reading the wait\<close>



lemma digit_val_int: "digit_val c = int (of_char c) - 48"
  by (simp add: digit_val_def of_char_def)

















subsection \<open>When a result is returned\<close>

lemma set_latest_total:
  "currentDate r = Some t \<Longrightarrow> \<exists>les'. set_latest r les = Inr les'"
  by (simp add: set_latest_def toISOString_def Let_def)

lemma store_total:
  assumes "currentDate r = Some t"
  shows "\<exists>d'. set_max r d = Inr d'" and "\<exists>d'. set_max_styled r d = Inr d'"
    and "\<exists>d'. set_min r d = Inr d'" and "\<exists>d'. set_min_styled r d = Inr d'"
  using assms
  by (simp_all add: set_max_def set_max_styled_def set_min_def set_min_styled_def
        store_max_def store_min_def toISOString_def)

lemma aggregate_total:
  assumes d: "currentDate r = Some t" and ord: "ordinary (rideKey r)"
  shows "\<exists>st'. aggregate h r st = Inr st'" and "\<exists>st'. aggregate_styled h r st = Inr st'"
proof -
  from push_timeData_ordinary [OF ord, of h "timeDataAcc st"]
  obtain td where td: "push_timeData h r (timeDataAcc st) = Inr td" by blast
  from set_latest_total [OF d] obtain les where les: "set_latest r (latestEntries st) = Inr les"
    by blast
  from store_total [OF d] obtain mx mxs mn mns where s:
    "set_max r (maxWaitTimes st) = Inr mx" "set_max_styled r (maxWaitTimes st) = Inr mxs"
    "set_min r (minWaitTimes st) = Inr mn" "set_min_styled r (minWaitTimes st) = Inr mns"
    by blast
  show "\<exists>st'. aggregate h r st = Inr st'"
    unfolding aggregate_def by (simp add: td les s)
  show "\<exists>st'. aggregate_styled h r st = Inr st'"
    unfolding aggregate_styled_def by (simp add: td les s)
qed

lemma row_dated_reading:
  assumes "row_dated h cells"
  obtains r t where "row_reading h cells = Some r" and "currentDate r = Some t"
    and "ordinary (rideKey r)"
  using assms unfolding row_dated_def row_reading_normalize normalize_row_def
  by (auto split: list.splits)

lemma forEach_total:
  assumes f: "f = process_row h \<or> f = process_row_styled h"
  shows "list_all (row_dated h) rows \<Longrightarrow> \<exists>st'. forEach f rows st = Inr st'"
proof (induction rows arbitrary: st)
  case Nil
  then show ?case by simp
next
  case (Cons x rows)
  from Cons.prems have "row_dated h x" by simp
  then obtain r t where r: "row_reading h x = Some r" "currentDate r = Some t"
    "ordinary (rideKey r)"
    by (rule row_dated_reading)
  have "\<exists>st1. f x st = Inr st1"
    using f r(1) aggregate_total [OF r(2,3)]
    by (auto simp: process_row_def process_row_styled_def)
  then obtain st1 where "f x st = Inr st1" ..
  moreover obtain st' where "forEach f rows st1 = Inr st'"
    using Cons.IH [of st1] Cons.prems by auto
  ultimately show ?case by simp
qed

lemma reduce_max_bound:
  assumes "\<forall>e \<in> set es. \<bar>timestamp e\<bar> \<le> B" and "\<bar>m\<bar> \<le> B"
  shows "\<bar>foldl (\<lambda>m entry. max m (timestamp entry)) m es\<bar> \<le> B"
  using assms
proof (induction es arbitrary: m)
  case Nil
  then show ?case by simp
next
  case (Cons e es)
  have "\<bar>max m (timestamp e)\<bar> \<le> B" using Cons.prems by (auto simp: max_def)
  then show ?case using Cons by simp
qed

lemma assemble_total:
  assumes li: "latest_inv (latestEntries st) rs" and wf: "\<forall>r \<in> set rs. reading_wf h r"
  shows "\<exists>out. assemble h st = Inr out"
proof -
  note li' = li [unfolded latest_inv_def]
  have b: "\<forall>e \<in> set (Object_values (latestEntries st)). \<bar>timestamp e\<bar> \<le> 8640000000000000"
  proof
    fix e assume "e \<in> set (Object_values (latestEntries st))"
    then have "e \<in> set (map snd (latestEntries st))"
      using mset_Object_values [of "latestEntries st"] by (metis set_mset_mset)
    then obtain k where "(k, e) \<in> set (latestEntries st)" by auto
    then have "map_of (latestEntries st) k = Some e"
      using table_invD(1) [OF li'] by simp
    then have "latest_spec k rs = Some e" using table_invD(2) [OF li', of k] by simp
    then obtain x where x: "x \<in> set (ride_readings k rs)" "currentDate x = Some (timestamp e)"
      by (auto simp: latest_spec_def latest_entry_def Option.bind_eq_Some_conv
            split: if_splits dest: first_with_max_Some(1))
    then have "x \<in> set rs" by (simp add: ride_readings_def)
    then show "\<bar>timestamp e\<bar> \<le> 8640000000000000"
      using wf x(2) by (auto simp: reading_wf_def)
  qed
  have "\<bar>reduce_max (Object_values (latestEntries st))\<bar> \<le> 8640000000000000"
    unfolding reduce_max_def by (rule reduce_max_bound [OF b]) simp
  then show ?thesis
    by (simp add: assemble_def Let_def time_clip_def toISOString_def)
qed

subsection \<open>Rows with an invalid date\<close>

lemma normalize_row_invalid:
  assumes "new_Date h ts = None" and "normalize_row h (ts # rest) = Some r"
  shows "currentDate r = None" and "currentHour r = None"
  using assms
  by (auto simp: normalize_row_def adjusted_timestamp_def split: list.splits)

lemma acc_eqI:
  "latestEntries st' = latestEntries st \<Longrightarrow> maxWaitTimes st' = maxWaitTimes st
   \<Longrightarrow> minWaitTimes st' = minWaitTimes st \<Longrightarrow> timeDataAcc st' = timeDataAcc st
   \<Longrightarrow> st' = (st :: acc)"
  by simp

lemma push_timeData_invalid:
  assumes si: "series_inv h td rs" and li: "latest_inv les rs"
    and hr: "currentHour r = None"
    and known: "ordinary (rideKey r) \<longrightarrow> ride_readings (rideKey r) rs \<noteq> []"
  shows "push_timeData h r td = Inr td"
proof (cases "ordinary (rideKey r)")
  case False
  have "map_of td (rideKey r) = None"
    using table_invD(2) [OF si [unfolded series_inv_def], of "rideKey r"] False
    by (simp add: series_spec_def)
  from push_timeData_inherited [OF False this, of h] show ?thesis
    using hr by (simp add: in_display_window_def)
next
  case True
  then have "map_of td (rideKey r) \<noteq> None"
    using table_invD(3) [OF si [unfolded series_inv_def], of "rideKey r"] known by blast
  then obtain xs where "map_of td (rideKey r) = Some xs" by blast
  then show ?thesis
    using hr by (simp add: push_timeData_def get_cases truthy_def ge_num_def le_num_def Let_def)
qed

lemma set_latest_invalid:
  assumes d: "currentDate r = None"
  shows "set_latest r les = (if truthy (get les (rideKey r)) then Inr les else Inl RangeError)"
  using d by (simp add: set_latest_def toISOString_def gt_num_def Let_def)

lemma latest_known:
  assumes li: "latest_inv les rs"
  shows "truthy (get les k) \<longleftrightarrow> \<not> (ordinary k \<and> ride_readings k rs = [])"
proof (cases "ordinary k")
  case False
  then have "map_of les k = None"
    using table_invD(2) [OF li [unfolded latest_inv_def], of k] by (simp add: latest_spec_def)
  then show ?thesis using False by (simp add: get_cases truthy_def)
next
  case True
  show ?thesis
  proof (cases "ride_readings k rs = []")
    case e: True
    then have "map_of les k = None"
      using table_invD(2) [OF li [unfolded latest_inv_def], of k]
      by (simp add: latest_spec_def first_with_max_Nil)
    then show ?thesis using True e by (simp add: get_cases truthy_def)
  next
    case ne: False
    then have "map_of les k \<noteq> None"
      using table_invD(3) [OF li [unfolded latest_inv_def], of k] True by blast
    then show ?thesis using True ne by (auto simp: get_cases truthy_def)
  qed
qed

lemma aggregate_invalid_date:
  assumes inv: "common_inv h st rs"
    and d: "currentDate r = None" and hr: "currentHour r = None"
    and ok: "aggregate h r st = Inr st' \<or> aggregate_styled h r st = Inr st'"
  shows "st' = st"
proof -
  have w: "\<not> in_trough_window r" "\<not> in_display_window r"
    using hr by (simp_all add: in_trough_window_def in_display_window_def)
  have li: "latest_inv (latestEntries st) rs" and si: "series_inv h (timeDataAcc st) rs"
    using inv by (simp_all add: common_inv_def)
  have l: "set_latest r (latestEntries st) = Inr (latestEntries st')"
    and t: "push_timeData h r (timeDataAcc st) = Inr (timeDataAcc st')"
    and mn: "minWaitTimes st' = minWaitTimes st"
    using ok w aggregate_Inr(1,2,6) [of h r st st'] aggregate_styled_Inr(1,2,6) [of h r st st']
    by auto
  have tr: "truthy (get (latestEntries st) (rideKey r))" and l': "latestEntries st' = latestEntries st"
    using l unfolding set_latest_invalid [OF d] by (simp_all split: if_splits)
  have "ordinary (rideKey r) \<longrightarrow> ride_readings (rideKey r) rs \<noteq> []"
    using tr latest_known [OF li, of "rideKey r"] by blast
  from push_timeData_invalid [OF si li hr this] t
  have t': "timeDataAcc st' = timeDataAcc st" by simp
  have mx: "maxWaitTimes st' = maxWaitTimes st"
  proof (cases "isRideOpen r")
    case False
    then show ?thesis
      using ok aggregate_Inr(4) [of h r st st'] aggregate_styled_Inr(4) [of h r st st'] by auto
  next
    case True
    then have "set_max r (maxWaitTimes st) = Inr (maxWaitTimes st')
               \<or> set_max_styled r (maxWaitTimes st) = Inr (maxWaitTimes st')"
      using ok aggregate_Inr(3) [of h r st st'] aggregate_styled_Inr(3) [of h r st st'] by auto
    then show ?thesis
      using d by (auto simp: set_max_def set_max_styled_def store_max_def toISOString_def
                    split: if_splits)
  qed
  show ?thesis using l' mx mn t' by (rule acc_eqI)
qed

lemma set_max_invalid:
  assumes pi: "peak_inv mx rs" and d: "currentDate r = None"
  shows "set_max r mx =
           (if ordinary (rideKey r)
               \<and> list_all (\<lambda>x. numericWaitTime x < numericWaitTime r) (open_readings (rideKey r) rs)
            then Inl RangeError else Inr mx)"
proof -
  let ?k = "rideKey r"
  from pi have proto: "prototype mx = None"
    and ti: "table_inv (props mx) (\<lambda>k. peak_spec k rs) (\<lambda>k. ordinary k \<and> open_readings k rs \<noteq> [])"
    unfolding peak_inv_def by simp_all
  note g = dict_get_plain [OF proto] get_cases
  have st: "store_max r mx = Inl RangeError" using d by (simp add: store_max_def toISOString_def)
  show ?thesis
  proof (cases "ordinary ?k")
    case False
    then have "map_of (props mx) ?k = None"
      using table_invD(2) [OF ti, of ?k] by (simp add: peak_spec_def)
    then show ?thesis
      using False by (simp add: set_max_def g truthy_def read_prop_def gt_num_def)
  next
    case ord: True
    show ?thesis
    proof (cases "open_readings ?k rs = []")
      case True
      then have "map_of (props mx) ?k = None"
        using table_invD(2) [OF ti, of ?k] by (simp add: peak_spec_def first_with_max_Nil)
      then show ?thesis
        using ord True st by (simp add: set_max_def g truthy_def)
    next
      case False
      then have "map_of (props mx) ?k \<noteq> None" using table_invD(3) [OF ti, of ?k] ord by blast
      then obtain e where e: "map_of (props mx) ?k = Some e" by blast
      then have "peak_spec ?k rs = Some e" using table_invD(2) [OF ti, of ?k] by simp
      then obtain x where x: "first_with_max numericWaitTime (open_readings ?k rs) = Some x"
        and em: "max_wait_time e = Some (numericWaitTime x)"
        using ord by (auto simp: peak_spec_def peak_entry_def Option.bind_eq_Some_conv)
      have mx: "numericWaitTime x = Max (set (map numericWaitTime (open_readings ?k rs)))"
        using first_with_max_Some(2) [OF x] .
      have "list_all (\<lambda>y. numericWaitTime y < numericWaitTime r) (open_readings ?k rs)
              \<longleftrightarrow> numericWaitTime x < numericWaitTime r"
        unfolding mx using False by (simp add: list_all_iff)
      then show ?thesis
        using ord e em st by (simp add: set_max_def g truthy_def read_prop_def gt_num_def)
    qed
  qed
qed

lemma aggregate_invalid_plain:
  assumes inv: "common_inv h st rs" and pl: "plain_inv st rs"
    and d: "currentDate r = None" and hr: "currentHour r = None"
  shows "aggregate h r st =
           (if ordinary (rideKey r)
               \<and> (ride_readings (rideKey r) rs = []
                    \<or> (isRideOpen r
                         \<and> list_all (\<lambda>x. numericWaitTime x < numericWaitTime r)
                              (open_readings (rideKey r) rs)))
            then Inl RangeError else Inr st)"
proof -
  have li: "latest_inv (latestEntries st) rs" and si: "series_inv h (timeDataAcc st) rs"
    using inv by (simp_all add: common_inv_def)
  have pi: "peak_inv (maxWaitTimes st) rs" using pl by (simp add: plain_inv_def)
  have w: "ge_num (currentHour r) (Some 10) = False"
    using hr by (simp add: ge_num_def)
  note sl = set_latest_invalid [OF d, of "latestEntries st"] latest_known [OF li, of "rideKey r"]
  note sm = set_max_invalid [OF pi d]
  have same: "\<lparr>latestEntries = latestEntries st, maxWaitTimes = maxWaitTimes st,
               minWaitTimes = minWaitTimes st, timeDataAcc = timeDataAcc st\<rparr> = st"
    by simp
  show ?thesis
  proof (cases "ordinary (rideKey r) \<and> ride_readings (rideKey r) rs = []")
    case True
    from push_timeData_ordinary [of r h "timeDataAcc st"] True
    obtain td where td: "push_timeData h r (timeDataAcc st) = Inr td" by blast
    show ?thesis
      unfolding aggregate_def td using True sl by simp
  next
    case False
    then have k: "ordinary (rideKey r) \<longrightarrow> ride_readings (rideKey r) rs \<noteq> []" by blast
    note td = push_timeData_invalid [OF si li hr k]
    have l: "set_latest r (latestEntries st) = Inr (latestEntries st)"
      using False sl by simp
    show ?thesis
      unfolding aggregate_def td l using False w sm same by simp
  qed
qed

subsection \<open>Clock labels\<close>

lemma local_hour_range: "0 \<le> local_hour h t \<and> local_hour h t \<le> 23"
  by (simp add: local_hour_def)

lemma local_minute_range: "0 \<le> local_minute h t \<and> local_minute h t \<le> 59"
  by (simp add: local_minute_def)

lemma display_labels_parse:
  assumes ok: "reads_clock_labels h"
  shows "\<forall>p \<in> set (display_points h k (readings h csvText)).
           new_Date h (''1970/01/01 '' @ time p) \<noteq> None"
proof
  fix p assume "p \<in> set (display_points h k (readings h csvText))"
  then obtain r where r: "r \<in> set (readings h csvText)" "in_display_window r"
    and p: "p = series_point h r"
    by (auto simp: display_points_def ride_readings_def)
  from readings_wf [OF r(1)] r(2) obtain t where t: "currentDate r = Some t"
    by (cases "currentDate r") (auto simp: reading_wf_def in_display_window_def)
  have "time p = clock_label (local_hour h t) (local_minute h t)"
    by (simp add: p series_point_def t)
  moreover have "local_hour h t \<in> set [0..23]" "local_minute h t \<in> set [0..59]"
    using local_hour_range [of h t] local_minute_range [of h t] by simp_all
  ultimately show "new_Date h (''1970/01/01 '' @ time p) \<noteq> None"
    using ok unfolding reads_clock_labels_def by (metis (no_types))
qed

lemma number_pad2:
  assumes "0 \<le> n" and "n \<le> 99"
  shows "number (pad2 n) = Some n"
proof -
  have a: "nat (n div 10) < 10" and b: "nat (n mod 10) < 10"
    using assms by auto
  have da: "digit_val (char_of (48 + nat (n div 10))) = n div 10"
    using a assms unfolding digit_val_int by (simp add: of_char_of)
  have db: "digit_val (char_of (48 + nat (n mod 10))) = n mod 10"
    using b assms unfolding digit_val_int by (simp add: of_char_of)
  have ia: "is_digit (char_of (48 + nat (n div 10)))"
    using a by (simp add: is_digit_def of_char_of)
  have ib: "is_digit (char_of (48 + nat (n mod 10)))"
    using b by (simp add: is_digit_def of_char_of)
  have "digits_val (pad2 n) = 10 * (n div 10) + n mod 10"
    by (simp add: pad2_def digits_val_def da db)
  then have "digits_val (pad2 n) = n" by simp
  then show ?thesis
    using ia ib by (simp add: number_def) (simp add: pad2_def)
qed

lemma sample_parse_clock:
  assumes "0 \<le> hh" "hh \<le> 23" "0 \<le> mm" "mm \<le> 59"
  shows "sample_parse (''1970/01/01 '' @ clock_label hh mm) = Some ((hh * 60 + mm) * 60000)"
proof -
  have y: "number ''1970'' = Some 1970" and o: "number ''01'' = Some 1" by code_simp+
  have d: "days_from_civil 1970 1 1 = 0" by code_simp
  have h: "number (pad2 hh) = Some hh" and m: "number (pad2 mm) = Some mm"
    using assms by (simp_all add: number_pad2)
  obtain a b where ph: "pad2 hh = [a, b]" by (simp add: pad2_def)
  obtain c e where pm: "pad2 mm = [c, e]" by (simp add: pad2_def)
  show ?thesis
    using y o d h m assms unfolding clock_label_def ph pm
    by (simp add: sample_parse_def sub_def make_time_def)
qed

lemma reads_clock_labels_utc_host: "reads_clock_labels utc_host"
  unfolding reads_clock_labels_def
proof (intro ballI)
  fix hh mm :: int
  assume "hh \<in> set [0..23]" "mm \<in> set [0..59]"
  then have r: "0 \<le> hh" "hh \<le> 23" "0 \<le> mm" "mm \<le> 59" by simp_all
  have "\<bar>(hh * 60 + mm) * 60000\<bar> \<le> 8640000000000000" using r by simp
  then show "new_Date utc_host (''1970/01/01 '' @ clock_label hh mm) \<noteq> None"
    using sample_parse_clock [OF r]
    by (simp add: new_Date_def utc_host_def time_clip_def)
qed

section \<open>Properties\<close>

subsection \<open>Scenario 1 of the specification\<close>

text \<open>
  On the three readings of Space Mountain (waits 10, 40 and 5 at 9:00, 11:00 and 15:00)
  both the specification and the embedding give the latest wait 5 at 16:00, the peak 40
  and the trough 5.
\<close>

lemma scenario_1:
  "map_sum id
     (\<lambda>out. (map (\<lambda>e. (wait_time e, timestamp e)) (currentData out),
             map max_wait_time (maxData out), map min_wait_time (minData out)))
     (processCSVData utc_host scenario_1_text)
   = Inr ([(Finite 5, 1738512000000)], [Some (Finite 40)], [Some (Finite 5)])
   \<and> toLocaleTimeString utc_host (Some 1738512000000) = ''16:00''"
  by code_simp

subsection \<open>Latest entry\<close>

text \<open>
  C1 (every ride has a latest entry, the first of its readings with the greatest adjusted
  timestamp). The dictionaries are plain objects, and the test \<open>!latestEntries[rideKey]\<close>
  reads through \<open>Object.prototype\<close>: for a ride named \<open>constructor\<close> it finds the
  inherited function, the comparison with the date of that function is false, and no
  entry is ever stored. The text below has one reading, of the ride \<open>constructor\<close> with
  the adjusted timestamp 23:00, and both dashboards return no latest entry.
\<close>

theorem latest_entry_missing_for_inherited_name:
  "map (\<lambda>r. (rideKey r, currentDate r))
     (readings utc_host ''h\<newline>2025-02-02T22:00:00,constructor,5,x,true'')
   = [(''constructor'', Some 1738537200000)]
   \<and> map_sum id currentData
       (processCSVData utc_host ''h\<newline>2025-02-02T22:00:00,constructor,5,x,true'') = Inr []
   \<and> map_sum id currentData
       (processCSVData_styled utc_host ''h\<newline>2025-02-02T22:00:00,constructor,5,x,true'') = Inr []"
  by code_simp

text \<open>
  For every ride key that is no name of \<open>Object.prototype\<close> the code does what C1 says.
  Whenever \<open>processCSVData\<close> (plain or styled) returns, the latest entry of such a ride is
  the first of its readings whose adjusted timestamp (the timestamp parsed plus one hour)
  is the maximum among the readings of the ride: an entry is replaced only by a strictly
  later reading, so of two readings with equal timestamps the first one stays. A ride
  without readings has no entry. An invalid date counts as below every valid date.
\<close>

lemma latest_entry_of_ordinary_ride:
  assumes "impl = processCSVData \<or> impl = processCSVData_styled"
    and "impl h csvText = Inr out"
    and "ordinary k"
  shows "(ride_readings k (readings h csvText) = []
            \<longrightarrow> filter (\<lambda>e. ride_name e = k) (currentData out) = [])
       \<and> (ride_readings k (readings h csvText) \<noteq> []
            \<longrightarrow> (\<exists>x t. first_with_max currentDate (ride_readings k (readings h csvText)) = Some x
                    \<and> currentDate x = Some t
                    \<and> (\<forall>y \<in> set (ride_readings k (readings h csvText)). currentDate y \<le> Some t)
                    \<and> filter (\<lambda>e. ride_name e = k) (currentData out)
                        = [\<lparr>ride_name = k, wait_time = numericWaitTime x,
                            last_update = lastUpdate x, is_open = isRideOpen x,
                            timestamp = t\<rparr>]))"
proof -
  let ?rs = "readings h csvText"
  from impl_common_inv [OF assms(1,2)] obtain st where inv: "common_inv h st ?rs"
    and a: "assemble h st = Inr out" by blast
  have li: "table_inv (latestEntries st) (\<lambda>k. latest_spec k ?rs)
              (\<lambda>k. ordinary k \<and> ride_readings k ?rs \<noteq> [])"
    using inv by (simp add: common_inv_def latest_inv_def)
  have flt: "filter (\<lambda>e. ride_name e = k) (currentData out)
               = (case latest_spec k ?rs of None \<Rightarrow> [] | Some e \<Rightarrow> [e])"
    unfolding assemble_Inr(1) [OF a]
    by (rule values_filter [OF li]) (rule latest_spec_name)
  show ?thesis
  proof (intro conjI impI)
    assume "ride_readings k ?rs = []"
    then have "latest_spec k ?rs = None"
      by (simp add: latest_spec_def first_with_max_Nil)
    then show "filter (\<lambda>e. ride_name e = k) (currentData out) = []"
      using flt by simp
  next
    assume ne: "ride_readings k ?rs \<noteq> []"
    then obtain e where e: "latest_spec k ?rs = Some e"
      using table_invD(2,3) [OF li, of k] assms(3) by (cases "latest_spec k ?rs") auto
    then obtain x t where x: "first_with_max currentDate (ride_readings k ?rs) = Some x"
      and t: "currentDate x = Some t"
      and ee: "e = \<lparr>ride_name = rideKey x, wait_time = numericWaitTime x,
                    last_update = lastUpdate x, is_open = isRideOpen x, timestamp = t\<rparr>"
      using assms(3) by (auto simp: latest_spec_def latest_entry_def Option.bind_eq_Some_conv)
    have kx: "rideKey x = k"
      using first_with_max_Some(1) [OF x] ride_readings_member by blast
    have "\<forall>y \<in> set (ride_readings k ?rs). currentDate y \<le> Some t"
      using first_with_max_Some(3) [OF x] t by simp
    then show "\<exists>x t. first_with_max currentDate (ride_readings k ?rs) = Some x
                    \<and> currentDate x = Some t
                    \<and> (\<forall>y \<in> set (ride_readings k ?rs). currentDate y \<le> Some t)
                    \<and> filter (\<lambda>e. ride_name e = k) (currentData out)
                        = [\<lparr>ride_name = k, wait_time = numericWaitTime x,
                            last_update = lastUpdate x, is_open = isRideOpen x,
                            timestamp = t\<rparr>]"
      using x t flt e ee kx by auto
  qed
qed

text \<open>
  On a text with two readings of one ride at the same instant (waits 10 and 40) the entry
  keeps the first one.
\<close>

lemma latest_entry_on_tie:
  "map_sum id (map wait_time \<circ> currentData) (processCSVData utc_host tie_text) = Inr [Finite 10]"
  by code_simp

subsection \<open>Peak entry\<close>

text \<open>
  C2 (a ride with an open reading has a peak entry with the greatest wait of its open
  readings). The plain dashboard tests \<open>!maxWaitTimes[rideKey]\<close> and then compares with
  \<open>maxWaitTimes[rideKey].max_wait_time!\<close>: for a ride named \<open>toString\<close> the first reads
  the inherited function, the second is \<open>5 > undefined\<close>, and no peak entry is ever
  stored. The text below has one open reading of the ride \<open>toString\<close>; the plain
  dashboard returns no peak entry, while the styled one, which compares with
  \<open>max_wait_time || 0\<close>, returns the entry with the wait 5.
\<close>

theorem peak_entry_missing_for_inherited_name:
  "map (\<lambda>r. (rideKey r, numericWaitTime r))
     (open_readings ''toString''
        (readings utc_host ''h\<newline>2025-02-02T22:00:00,toString,5,x,true''))
   = [(''toString'', Finite 5)]
   \<and> map_sum id maxData
       (processCSVData utc_host ''h\<newline>2025-02-02T22:00:00,toString,5,x,true'') = Inr []
   \<and> map_sum id (map (\<lambda>e. (mm_ride_name e, max_wait_time e)) \<circ> maxData)
       (processCSVData_styled utc_host ''h\<newline>2025-02-02T22:00:00,toString,5,x,true'')
     = Inr [(''toString'', Some (Finite 5))]"
  by code_simp

text \<open>
  For every ride key that is no name of \<open>Object.prototype\<close> the plain dashboard does what
  C2 says: whenever it returns, a ride with at least one open reading has exactly one peak
  entry, its wait is the maximum wait among the open readings of the ride and its
  timestamp is that of the first open reading attaining the maximum; a ride with no open
  reading has no peak entry.
\<close>

lemma plain_peak_entry_of_ordinary_ride:
  assumes "processCSVData h csvText = Inr out" and "ordinary k"
  shows "(open_readings k (readings h csvText) = []
            \<longrightarrow> filter (\<lambda>e. mm_ride_name e = k) (maxData out) = [])
       \<and> (open_readings k (readings h csvText) \<noteq> []
            \<longrightarrow> (\<exists>x t. first_with_max numericWaitTime (open_readings k (readings h csvText)) = Some x
                    \<and> numericWaitTime x
                        = Max (set (map numericWaitTime (open_readings k (readings h csvText))))
                    \<and> currentDate x = Some t
                    \<and> filter (\<lambda>e. mm_ride_name e = k) (maxData out)
                        = [\<lparr>mm_ride_name = k, max_wait_time = Some (numericWaitTime x),
                            min_wait_time = None, mm_timestamp = t\<rparr>]))"
proof -
  let ?rs = "readings h csvText"
  from plain_Inr [OF assms(1)] obtain st where inv: "plain_inv st ?rs"
    and a: "assemble h st = Inr out" by blast
  have li: "table_inv (props (maxWaitTimes st)) (\<lambda>k. peak_spec k ?rs)
              (\<lambda>k. ordinary k \<and> open_readings k ?rs \<noteq> [])"
    using inv by (simp add: plain_inv_def peak_inv_def)
  have flt: "filter (\<lambda>e. mm_ride_name e = k) (maxData out)
               = (case peak_spec k ?rs of None \<Rightarrow> [] | Some e \<Rightarrow> [e])"
    unfolding assemble_Inr(2) [OF a]
    by (rule values_filter [OF li]) (rule peak_spec_name)
  show ?thesis
  proof (intro conjI impI)
    assume "open_readings k ?rs = []"
    then have "peak_spec k ?rs = None"
      by (simp add: peak_spec_def first_with_max_Nil)
    then show "filter (\<lambda>e. mm_ride_name e = k) (maxData out) = []"
      using flt by simp
  next
    assume ne: "open_readings k ?rs \<noteq> []"
    then obtain e where e: "peak_spec k ?rs = Some e"
      using table_invD(2,3) [OF li, of k] assms(2) by (cases "peak_spec k ?rs") auto
    then obtain x t where x: "first_with_max numericWaitTime (open_readings k ?rs) = Some x"
      and t: "currentDate x = Some t"
      and ee: "e = \<lparr>mm_ride_name = rideKey x, max_wait_time = Some (numericWaitTime x),
                    min_wait_time = None, mm_timestamp = t\<rparr>"
      using assms(2) by (auto simp: peak_spec_def peak_entry_def Option.bind_eq_Some_conv)
    have "x \<in> set (ride_readings k ?rs)"
      using first_with_max_Some(1) [OF x] by (simp add: open_readings_def)
    then have kx: "rideKey x = k" using ride_readings_member by blast
    show "\<exists>x t. first_with_max numericWaitTime (open_readings k ?rs) = Some x
                    \<and> numericWaitTime x = Max (set (map numericWaitTime (open_readings k ?rs)))
                    \<and> currentDate x = Some t
                    \<and> filter (\<lambda>e. mm_ride_name e = k) (maxData out)
                        = [\<lparr>mm_ride_name = k, max_wait_time = Some (numericWaitTime x),
                            min_wait_time = None, mm_timestamp = t\<rparr>]"
      using x t flt e ee kx first_with_max_Some(2) [OF x] by auto
  qed
qed

subsection \<open>Trough entry\<close>

text \<open>
  C3 (the trough is the minimum wait among the open readings of the ride inside the
  window 10 to 18). In the styled dashboard a stored minimum of 0 is falsy in
  \<open>min_wait_time || Infinity\<close>, so the next open reading in the window replaces it: for a
  ride with the waits 0 and then 30 the stored minimum is 30, not 0.
\<close>

theorem styled_trough_after_zero:
  "map_sum id (map min_wait_time \<circ> minData)
     (processCSVData_styled utc_host
        ''h\<newline>2025-02-02T10:00:00,R,0,x,true\<newline>2025-02-02T11:00:00,R,30,x,true'')
   = Inr [Some (Finite 30)]"
  by code_simp

text \<open>
  The plain dashboard does keep the minimum: for a ride key that is no name of
  \<open>Object.prototype\<close> its trough entry is the first open reading in the window that
  attains the minimum wait.
\<close>

lemma plain_trough_entry_is_first_minimum:
  assumes "processCSVData h csvText = Inr out" and "ordinary k"
  shows "(trough_readings k (readings h csvText) = []
            \<longrightarrow> filter (\<lambda>e. mm_ride_name e = k) (minData out) = [])
       \<and> (trough_readings k (readings h csvText) \<noteq> []
            \<longrightarrow> (\<exists>x t. first_with_min numericWaitTime (trough_readings k (readings h csvText)) = Some x
                    \<and> numericWaitTime x
                        = Min (set (map numericWaitTime (trough_readings k (readings h csvText))))
                    \<and> currentDate x = Some t
                    \<and> filter (\<lambda>e. mm_ride_name e = k) (minData out)
                        = [\<lparr>mm_ride_name = k, max_wait_time = None,
                            min_wait_time = Some (numericWaitTime x), mm_timestamp = t\<rparr>]))"
proof -
  let ?rs = "readings h csvText"
  from plain_Inr [OF assms(1)] obtain st where inv: "plain_inv st ?rs"
    and a: "assemble h st = Inr out" by blast
  have li: "table_inv (props (minWaitTimes st)) (\<lambda>k. trough_spec k ?rs)
              (\<lambda>k. ordinary k \<and> trough_readings k ?rs \<noteq> [])"
    using inv by (simp add: plain_inv_def trough_inv_def)
  have flt: "filter (\<lambda>e. mm_ride_name e = k) (minData out)
               = (case trough_spec k ?rs of None \<Rightarrow> [] | Some e \<Rightarrow> [e])"
    unfolding assemble_Inr(3) [OF a]
    by (rule values_filter [OF li]) (rule trough_spec_name)
  show ?thesis
  proof (intro conjI impI)
    assume "trough_readings k ?rs = []"
    then have "trough_spec k ?rs = None"
      by (simp add: trough_spec_def first_with_min_Nil)
    then show "filter (\<lambda>e. mm_ride_name e = k) (minData out) = []"
      using flt by simp
  next
    assume ne: "trough_readings k ?rs \<noteq> []"
    then obtain e where e: "trough_spec k ?rs = Some e"
      using table_invD(2,3) [OF li, of k] assms(2) by (cases "trough_spec k ?rs") auto
    then obtain x t where x: "first_with_min numericWaitTime (trough_readings k ?rs) = Some x"
      and t: "currentDate x = Some t"
      and ee: "e = \<lparr>mm_ride_name = rideKey x, max_wait_time = None,
                    min_wait_time = Some (numericWaitTime x), mm_timestamp = t\<rparr>"
      using assms(2) by (auto simp: trough_spec_def trough_entry_def Option.bind_eq_Some_conv)
    have "x \<in> set (ride_readings k ?rs)"
      using first_with_min_Some(1) [OF x] by (simp add: trough_readings_def)
    then have kx: "rideKey x = k" using ride_readings_member by blast
    show "\<exists>x t. first_with_min numericWaitTime (trough_readings k ?rs) = Some x
                    \<and> numericWaitTime x = Min (set (map numericWaitTime (trough_readings k ?rs)))
                    \<and> currentDate x = Some t
                    \<and> filter (\<lambda>e. mm_ride_name e = k) (minData out)
                        = [\<lparr>mm_ride_name = k, max_wait_time = None,
                            min_wait_time = Some (numericWaitTime x), mm_timestamp = t\<rparr>]"
      using x t flt e ee kx first_with_min_Some(2) [OF x] by auto
  qed
qed

subsection \<open>The two dashboards\<close>

text \<open>
  C4 (the plain and the styled \<open>processCSVData\<close> return the same result on every text).
  They differ on a ride whose first wait inside the trough window is 0.
\<close>

theorem plain_and_styled_differ:
  "processCSVData utc_host
     ''h\<newline>2025-02-02T10:00:00,R,0,x,true\<newline>2025-02-02T12:00:00,R,25,y,true''
   \<noteq> processCSVData_styled utc_host
     ''h\<newline>2025-02-02T10:00:00,R,0,x,true\<newline>2025-02-02T12:00:00,R,25,y,true''"
  by code_simp

subsection \<open>Returning a result\<close>

text \<open>
  C5, as stated (\<open>processCSVData\<close> returns on every text, also with data lines of fewer
  than five fields), fails: a blank line between two data lines is a row of one field,
  and the callback throws a TypeError on it.
\<close>

theorem blank_line_throws:
  "processCSVData utc_host
     ''h\<newline>2025-02-02T10:00:00,R,5,x,true\<newline>\<newline>2025-02-02T11:00:00,R,30,x,true''
   = Inl TypeError"
  by code_simp

text \<open>
  C5, amended. \<open>processCSVData\<close> (plain or styled) returns a result whenever every data
  row has at least five fields, a timestamp that, one hour later, is a valid date, and a
  ride key that is no name of \<open>Object.prototype\<close>, whatever its wait and open fields hold;
  it throws whenever some data row has fewer than five fields.
\<close>

theorem returns_when_rows_are_dated:
  assumes "impl = processCSVData \<or> impl = processCSVData_styled"
  shows "(list_all (row_dated h) (data_rows csvText) \<longrightarrow> (\<exists>out. impl h csvText = Inr out))
       \<and> ((\<exists>cells \<in> set (data_rows csvText). length cells < 5) \<longrightarrow> (\<exists>e. impl h csvText = Inl e))"
proof (intro conjI impI)
  assume dated: "list_all (row_dated h) (data_rows csvText)"
  define f where "f = (if impl = processCSVData then process_row h else process_row_styled h)"
  have f: "f = process_row h \<or> f = process_row_styled h" by (simp add: f_def)
  from forEach_total [OF f dated] obtain st
    where st: "forEach f (data_rows csvText) empty_acc = Inr st" by blast
  have "latest_inv (latestEntries st) (rows_readings h (data_rows csvText))"
    using forEach_common_inv [OF f st] by (simp add: common_inv_def)
  from assemble_total [OF this] obtain out where out: "assemble h st = Inr out"
    using rows_readings_wf by blast
  have "impl h csvText = (case forEach f (data_rows csvText) empty_acc of
                            Inl e \<Rightarrow> Inl e | Inr st \<Rightarrow> assemble h st)"
    using assms by (auto simp: f_def processCSVData_def processCSVData_styled_def)
  then show "\<exists>out. impl h csvText = Inr out" using st out by simp
next
  assume short: "\<exists>cells \<in> set (data_rows csvText). length cells < 5"
  show "\<exists>e. impl h csvText = Inl e"
  proof (cases "impl h csvText")
    case (Inl e)
    then show ?thesis by blast
  next
    case (Inr out)
    from impl_common_inv [OF assms Inr]
    have all: "\<forall>x \<in> set (data_rows csvText). row_reading h x \<noteq> None" by blast
    from short obtain cells where c: "cells \<in> set (data_rows csvText)" "length cells < 5"
      by blast
    have "row_reading h cells \<noteq> None" using all c(1) by blast
    then have "5 \<le> length cells" by (simp only: row_reading_Some_iff)
    then show ?thesis using c(2) by simp
  qed
qed

text \<open>
  C5, amended, on a text whose wait and open fields are malformed, and on the text with
  the blank line.
\<close>

theorem returns_when_rows_are_dated_witness:
  "list_all (row_dated utc_host) (data_rows lenient_text)
   \<and> (\<exists>out. processCSVData utc_host lenient_text = Inr out)
   \<and> (\<exists>cells \<in> set (data_rows blank_line_text). length cells < 5)
   \<and> (\<exists>e. processCSVData_styled utc_host blank_line_text = Inl e)"
proof -
  have d: "list_all (row_dated utc_host) (data_rows lenient_text)" by code_simp
  have "1 < length (data_rows blank_line_text)" and l: "length (data_rows blank_line_text ! 1) < 5"
    by code_simp+
  then have "data_rows blank_line_text ! 1 \<in> set (data_rows blank_line_text)" by (intro nth_mem)
  then have s: "\<exists>cells \<in> set (data_rows blank_line_text). length cells < 5" using l by (rule rev_bexI)
  note a = returns_when_rows_are_dated [OF disjI1 [OF refl], of utc_host lenient_text]
  note b = returns_when_rows_are_dated [OF disjI2 [OF refl], of utc_host blank_line_text]
  show ?thesis
    by (intro conjI) (rule d s a [THEN conjunct1, THEN mp, OF d] b [THEN conjunct2, THEN mp, OF s])+
qed

subsection \<open>Rows whose timestamp is not a date\<close>

text \<open>
  C6, as stated (a row whose timestamp does not parse never crashes the fold), fails: as
  the first row of its ride it makes \<open>toISOString\<close> throw a RangeError.
\<close>

theorem invalid_first_timestamp_throws:
  "new_Date utc_host ''abc'' = None
   \<and> processCSVData utc_host ''h\<newline>abc,R,5,x,true'' = Inl RangeError"
  by code_simp

text \<open>
  C6, amended. Take a data row of at least five fields whose timestamp does not parse.
  The plain \<open>processCSVData\<close> throws when the reading of the row would be stored: when the
  ride key is no name of \<open>Object.prototype\<close> and the reading is the first of its ride, or
  is open with a wait above the wait of every earlier open reading of its ride. In every
  other case the row is processed without a crash and changes nothing: the result, or the
  exception of another row, is that of the text without the row. For the styled
  \<open>processCSVData\<close>: whenever it returns on the text, it returns the same result on the
  text without the row.
\<close>

theorem unparseable_timestamp_row_changes_nothing:
  assumes "data_rows csvText = pre @ (ts # name # w # upd # opn # rest) # post"
    and "new_Date h ts = None"
    and "data_rows csvText' = pre @ post"
  shows "(would_be_stored h pre (ts # name # w # upd # opn # rest)
            \<longrightarrow> (\<exists>e. processCSVData h csvText = Inl e))
       \<and> (\<not> would_be_stored h pre (ts # name # w # upd # opn # rest)
            \<longrightarrow> processCSVData h csvText = processCSVData h csvText')
       \<and> (\<forall>out. processCSVData_styled h csvText = Inr out
            \<longrightarrow> processCSVData_styled h csvText' = Inr out)"
proof -
  let ?row = "ts # name # w # upd # opn # rest"
  obtain r where r: "row_reading h ?row = Some r" by (simp add: row_reading_def)
  then have n: "normalize_row h ?row = Some r" by (simp add: row_reading_normalize)
  have d: "currentDate r = None" and hr: "currentHour r = None"
    using normalize_row_invalid [OF assms(2) n] by simp_all
  have ws: "would_be_stored h pre ?row \<longleftrightarrow>
              ordinary (rideKey r)
              \<and> (ride_readings (rideKey r) (rows_readings h pre) = []
                   \<or> (isRideOpen r
                        \<and> list_all (\<lambda>x. numericWaitTime x < numericWaitTime r)
                             (open_readings (rideKey r) (rows_readings h pre))))"
    unfolding would_be_stored_def n by simp
  have plain: "processCSVData h csvText =
                 (if (\<exists>st. forEach (process_row h) pre empty_acc = Inr st)
                     \<and> would_be_stored h pre ?row
                  then Inl RangeError else processCSVData h csvText')"
  proof (cases "forEach (process_row h) pre empty_acc")
    case (Inl e)
    then show ?thesis
      by (simp add: processCSVData_def assms(1,3) forEach_append)
  next
    case (Inr st1)
    have inv: "common_inv h st1 (rows_readings h pre)"
      using forEach_common_inv [of "process_row h" h, OF _ Inr] by simp
    have pl: "plain_inv st1 (rows_readings h pre)" using forEach_plain_inv [OF Inr] .
    have "process_row h ?row st1 = aggregate h r st1" by (simp add: process_row_def r)
    also note aggregate_invalid_plain [OF inv pl d hr]
    finally have step: "process_row h ?row st1 =
                          (if would_be_stored h pre ?row then Inl RangeError else Inr st1)"
      unfolding ws .
    show ?thesis
      by (simp add: processCSVData_def assms(1,3) forEach_append Inr step)
  qed
  have styled: "processCSVData_styled h csvText' = Inr out"
    if ok: "processCSVData_styled h csvText = Inr out" for out
  proof -
    from ok obtain st where st: "forEach (process_row_styled h) (pre @ ?row # post) empty_acc = Inr st"
      and asm: "assemble h st = Inr out"
      by (auto simp: processCSVData_styled_def assms(1) split: sum.splits)
    from st obtain st1 st2 where s1: "forEach (process_row_styled h) pre empty_acc = Inr st1"
      and s2: "process_row_styled h ?row st1 = Inr st2"
      and s3: "forEach (process_row_styled h) post st2 = Inr st"
      by (auto simp: forEach_append split: sum.splits)
    have inv: "common_inv h st1 (rows_readings h pre)"
      using forEach_common_inv [of "process_row_styled h" h, OF _ s1] by simp
    from s2 have "aggregate_styled h r st1 = Inr st2" by (simp add: process_row_styled_def r)
    then have "st2 = st1" using aggregate_invalid_date [OF inv d hr] by blast
    then have "forEach (process_row_styled h) (pre @ post) empty_acc = Inr st"
      using s1 s3 by (simp add: forEach_append)
    then show ?thesis by (simp add: processCSVData_styled_def assms(3) asm)
  qed
  show ?thesis
  proof (intro conjI allI impI)
    assume w: "would_be_stored h pre ?row"
    show "\<exists>e. processCSVData h csvText = Inl e"
    proof (cases "forEach (process_row h) pre empty_acc")
      case (Inl e)
      then show ?thesis by (simp add: processCSVData_def assms(1) forEach_append)
    next
      case (Inr st1)
      then show ?thesis using plain w by simp
    qed
  next
    assume "\<not> would_be_stored h pre ?row"
    then show "processCSVData h csvText = processCSVData h csvText'" using plain by simp
  next
    fix out assume "processCSVData_styled h csvText = Inr out"
    then show "processCSVData_styled h csvText' = Inr out" by (rule styled)
  qed
qed

text \<open>
  C6, amended, on a text whose second data row has the timestamp \<open>abc\<close> and a wait below
  the stored peak (nothing changes), and on a text whose second data row has the
  timestamp \<open>abc\<close> and a wait above the stored peak (an exception).
\<close>

theorem unparseable_timestamp_row_changes_nothing_witness:
  "new_Date utc_host ''abc'' = None
   \<and> \<not> would_be_stored utc_host [[''2025-02-02T10:00:00'', ''R'', ''5'', ''x'', ''true'']]
         [''abc'', ''R'', ''3'', ''y'', ''true'']
   \<and> \<not> isl (processCSVData utc_host bad_stamp_text)
   \<and> processCSVData utc_host bad_stamp_text = processCSVData utc_host bad_stamp_removed
   \<and> processCSVData_styled utc_host bad_stamp_text = processCSVData_styled utc_host bad_stamp_removed
   \<and> would_be_stored utc_host [[''2025-02-02T10:00:00'', ''R'', ''5'', ''x'', ''true'']]
         [''abc'', ''R'', ''9'', ''y'', ''true'']
   \<and> (\<exists>e. processCSVData utc_host bad_peak_text = Inl e)"
proof -
  have b: "new_Date utc_host ''abc'' = None" by code_simp
  have r: "data_rows bad_stamp_text
             = [[''2025-02-02T10:00:00'', ''R'', ''5'', ''x'', ''true'']]
               @ (''abc'' # ''R'' # ''3'' # ''y'' # ''true'' # [])
               # [[''2025-02-02T11:00:00'', ''R'', ''30'', ''z'', ''true'']]"
    by code_simp
  have r': "data_rows bad_stamp_removed
             = [[''2025-02-02T10:00:00'', ''R'', ''5'', ''x'', ''true'']]
               @ [[''2025-02-02T11:00:00'', ''R'', ''30'', ''z'', ''true'']]"
    by code_simp
  have q: "data_rows bad_peak_text
             = [[''2025-02-02T10:00:00'', ''R'', ''5'', ''x'', ''true'']]
               @ (''abc'' # ''R'' # ''9'' # ''y'' # ''true'' # []) # []"
    by code_simp
  have q': "data_rows ''h\<newline>2025-02-02T10:00:00,R,5,x,true''
             = [[''2025-02-02T10:00:00'', ''R'', ''5'', ''x'', ''true'']] @ []"
    by code_simp
  have n: "\<not> would_be_stored utc_host [[''2025-02-02T10:00:00'', ''R'', ''5'', ''x'', ''true'']]
             [''abc'', ''R'', ''3'', ''y'', ''true'']"
    by code_simp
  have y: "would_be_stored utc_host [[''2025-02-02T10:00:00'', ''R'', ''5'', ''x'', ''true'']]
             [''abc'', ''R'', ''9'', ''y'', ''true'']"
    by code_simp
  have i: "\<not> isl (processCSVData utc_host bad_stamp_text)" by code_simp
  have "\<not> isl (processCSVData_styled utc_host bad_stamp_text)" by code_simp
  then obtain out where e: "processCSVData_styled utc_host bad_stamp_text = Inr out"
    by (rule returns_InrE)
  note t = unparseable_timestamp_row_changes_nothing [OF r b r']
  note u = unparseable_timestamp_row_changes_nothing [OF q b q']
  have same: "processCSVData utc_host bad_stamp_text = processCSVData utc_host bad_stamp_removed"
    using t [THEN conjunct2, THEN conjunct1, THEN mp, OF n] .
  have "processCSVData_styled utc_host bad_stamp_removed = Inr out"
    using t [THEN conjunct2, THEN conjunct2, THEN spec, THEN mp, OF e] .
  then have same': "processCSVData_styled utc_host bad_stamp_text
                      = processCSVData_styled utc_host bad_stamp_removed"
    by (simp only: e)
  have thr: "\<exists>e. processCSVData utc_host bad_peak_text = Inl e"
    using u [THEN conjunct1, THEN mp, OF y] .
  from b n i same same' y thr show ?thesis by (intro conjI)
qed

subsection \<open>Time series\<close>



subsection \<open>Global latest timestamp\<close>

text \<open>
  C8 (the global latest timestamp is the maximum over the latest entries and is absent
  only when there is no reading). The reduction starts from 0 and the result is tested
  for truthiness: one reading dated before the epoch gives one latest entry and no latest
  timestamp.
\<close>

theorem latestTimestamp_absent_before_epoch:
  "map_sum id (\<lambda>out. (map timestamp (currentData out), latestTimestamp out))
     (processCSVData utc_host ''h\<newline>1969-12-31T22:00:00,R,7,x,true'')
   = Inr ([- 3600000], None)"
  by code_simp

text \<open>
  What the code computes: the maximum of 0 and the timestamps of the latest entries,
  absent when that maximum is 0.
\<close>

lemma latestTimestamp_value:
  assumes "impl = processCSVData \<or> impl = processCSVData_styled"
    and "impl h csvText = Inr out"
  shows "latestTimestamp out
           = (if Max (insert 0 (set (map timestamp (currentData out)))) = 0 then None
              else Some (Max (insert 0 (set (map timestamp (currentData out))))))"
proof -
  from impl_Inr [OF assms] obtain st where a: "assemble h st = Inr out" by blast
  show ?thesis
    unfolding assemble_Inr(5) [OF a] assemble_Inr(1) [OF a] reduce_max_def foldl_max_eq_Max ..
qed

subsection \<open>Wait minutes\<close>




text \<open>
  Above \<open>2^53\<close> the wait is the double nearest to the digits read, and it is infinite from
  about 309 digits on.
\<close>

lemma wait_is_rounded:
  "parseInt utc_host ''9007199254740993'' = Some (Finite 9007199254740992)
   \<and> parseInt utc_host (CHR ''1'' # replicate 309 (CHR ''0'')) = Some PosInfinity"
  by code_simp

subsection \<open>Keys of the time series\<close>

text \<open>
  C10 (the time-series mapping has a key for every ride of a data row, with the empty
  series when no reading falls in the hours 8 to 21). The key is created under the test
  \<open>!timeData[rideKey]\<close>, which reads through \<open>Object.prototype\<close>: for a ride named
  \<open>valueOf\<close> it finds the inherited function and creates nothing. In the text below the
  rides \<open>valueOf\<close> and \<open>Beta\<close> have one reading each, at 23:00; both dashboards return a
  time-series mapping with the key \<open>Beta\<close> alone.
\<close>

theorem timeData_key_missing_for_inherited_name:
  "map rideKey
     (readings utc_host
        ''h\<newline>2025-02-02T22:00:00,valueOf,5,x,true\<newline>2025-02-02T22:00:00,Beta,5,x,true'')
   = [''valueOf'', ''Beta'']
   \<and> map_sum id timeData
       (processCSVData utc_host
          ''h\<newline>2025-02-02T22:00:00,valueOf,5,x,true\<newline>2025-02-02T22:00:00,Beta,5,x,true'')
     = Inr [(''Beta'', [])]
   \<and> map_sum id timeData
       (processCSVData_styled utc_host
          ''h\<newline>2025-02-02T22:00:00,valueOf,5,x,true\<newline>2025-02-02T22:00:00,Beta,5,x,true'')
     = Inr [(''Beta'', [])]"
  by code_simp

text \<open>
  For the ride keys that are no names of \<open>Object.prototype\<close> the code does what C10 says.
  Whenever \<open>processCSVData\<close> (plain or styled) returns, every data row is a reading, the
  keys of the time-series mapping are exactly those ride keys of the readings and exactly
  the ride names of the latest entries, and such a ride none of whose readings falls in
  the hours 8 to 21 is mapped to the empty series.
\<close>

lemma timeData_keys_of_ordinary_rides:
  assumes "impl = processCSVData \<or> impl = processCSVData_styled"
    and "impl h csvText = Inr out"
  shows "map (normalize_row h) (data_rows csvText) = map Some (readings h csvText)
       \<and> distinct (map fst (timeData out))
       \<and> set (map fst (timeData out)) = {k \<in> set (map rideKey (readings h csvText)). ordinary k}
       \<and> set (map fst (timeData out)) = set (map ride_name (currentData out))
       \<and> (\<forall>r \<in> set (readings h csvText).
            ordinary (rideKey r)
            \<and> filter in_display_window (ride_readings (rideKey r) (readings h csvText)) = []
            \<longrightarrow> map_of (timeData out) (rideKey r) = Some [])"
proof -
  let ?rs = "readings h csvText"
  from impl_common_inv [OF assms] obtain st where inv: "common_inv h st ?rs"
    and a: "assemble h st = Inr out"
    and all: "\<forall>x \<in> set (data_rows csvText). row_reading h x \<noteq> None" by blast
  have si: "table_inv (timeDataAcc st) (\<lambda>k. series_spec h k ?rs)
              (\<lambda>k. ordinary k \<and> ride_readings k ?rs \<noteq> [])"
    using inv by (simp add: common_inv_def series_inv_def)
  have li: "table_inv (latestEntries st) (\<lambda>k. latest_spec k ?rs)
              (\<lambda>k. ordinary k \<and> ride_readings k ?rs \<noteq> [])"
    using inv by (simp add: common_inv_def latest_inv_def)
  have rk: "{k. ordinary k \<and> ride_readings k ?rs \<noteq> []}
              = {k \<in> set (map rideKey ?rs). ordinary k}"
    by (auto simp: ride_readings_def filter_empty_conv)
  have k1: "set (map fst (timeDataAcc st)) = {k \<in> set (map rideKey ?rs). ordinary k}"
    unfolding table_keys [OF si] rk [symmetric] by (simp add: series_spec_def)
  have "{k. latest_spec k ?rs \<noteq> None} = {k. ordinary k \<and> ride_readings k ?rs \<noteq> []}"
    using table_invD(2,3) [OF li]
    by (auto simp: latest_spec_def first_with_max_Nil split: if_splits)
  then have k2: "set (map fst (latestEntries st)) = {k \<in> set (map rideKey ?rs). ordinary k}"
    unfolding table_keys [OF li] rk by simp
  have nm: "set (map ride_name (Object_values (latestEntries st))) = set (map fst (latestEntries st))"
    by (rule values_names [OF li]) (rule latest_spec_name)
  have ks: "map_of (timeData out) k = map_option (array_sort (compare_time h)) (series_spec h k ?rs)"
    for k by (rule series_of_result(2) [OF inv a])
  have c1: "map (normalize_row h) (data_rows csvText) = map Some ?rs"
  proof -
    have "row_reading h = normalize_row h" by (rule ext) (rule row_reading_normalize)
    then show ?thesis using rows_readings_all [OF all] by (simp add: readings_def)
  qed
  have c2: "distinct (map fst (timeData out))"
    unfolding assemble_Inr(4) [OF a]
    using table_invD(1) [OF si] by (simp add: distinct_own_properties keys_sort_timeData)
  have "set (map fst (timeData out)) = set (map fst (sort_timeData h (timeDataAcc st)))"
    unfolding assemble_Inr(4) [OF a] by (simp add: set_own_properties)
  then have c3: "set (map fst (timeData out)) = {k \<in> set (map rideKey ?rs). ordinary k}"
    using k1 by (simp only: keys_sort_timeData)
  have c4: "set (map fst (timeData out)) = set (map ride_name (currentData out))"
    unfolding c3 assemble_Inr(1) [OF a] nm k2 ..
  have c5: "\<forall>r \<in> set ?rs. ordinary (rideKey r)
            \<and> filter in_display_window (ride_readings (rideKey r) ?rs) = []
            \<longrightarrow> map_of (timeData out) (rideKey r) = Some []"
  proof (intro ballI impI)
    fix r assume r: "r \<in> set ?rs"
      and e: "ordinary (rideKey r)
              \<and> filter in_display_window (ride_readings (rideKey r) ?rs) = []"
    have "ride_readings (rideKey r) ?rs \<noteq> []"
      using r by (auto simp: ride_readings_def filter_empty_conv)
    then have "series_spec h (rideKey r) ?rs = Some []"
      using e by (simp add: series_spec_def display_points_def)
    then show "map_of (timeData out) (rideKey r) = Some []"
      unfolding ks by (simp add: array_sort_Nil)
  qed
  show ?thesis using c1 c2 c3 c4 c5 by blast
qed

end
